theory Spec2Isabelle
  imports Main "HOL-Library.Sublist"
begin

section \<open>Data model (src/types)\<close>

text \<open>
  A \<open>DiscordMessage\<close> is a parsed JSON object. The scraper reads two of its fields,
  \<open>id\<close> and \<open>timestamp\<close> (both strings); every other field is carried along untouched,
  and \<open>content\<close> stands for them here. The field \<open>id\<close> is called \<open>id_msg\<close>, since
  \<open>id\<close> is the identity function of HOL.
\<close>

record DiscordMessage =
  id_msg :: string
  timestamp :: string
  content :: string

record ServerMetadata =
  serverName :: string
  serverId :: string
  channelName :: string
  channelId :: string

record CSVRow =
  server_name :: string
  server_id :: string
  channel_name :: string
  channel_id :: string
  data :: string

section \<open>CSV rows (src/processor/CSVProcessor.ts)\<close>

definition comma :: char where
  "comma = CHR '',''"

definition dquote :: char where
  "dquote = CHR 0x22"

definition newline :: char where
  "newline = CHR 0x0A"

text \<open>\<open>value.replace(/"/g, '""')\<close>: every quote character becomes two.\<close>

fun double_quotes :: "string \<Rightarrow> string" where
  "double_quotes [] = []"
| "double_quotes (c # cs) =
     (if c = dquote then dquote # dquote # double_quotes cs else c # double_quotes cs)"

text \<open>
  \<open>escapeCSVField\<close>. The \<open>typeof value !== "string"\<close> coercion of the source is the
  identity on the strings this function is typed for.
\<close>

definition escapeCSVField :: "string \<Rightarrow> string" where
  "escapeCSVField v =
     (if comma \<in> set v \<or> dquote \<in> set v \<or> newline \<in> set v
      then dquote # double_quotes v @ [dquote]
      else v)"

text \<open>\<open>Array.prototype.join\<close> on a list of strings.\<close>

fun join :: "string \<Rightarrow> string list \<Rightarrow> string" where
  "join sep [] = []"
| "join sep [x] = x"
| "join sep (x # y # ys) = x @ sep @ join sep (y # ys)"

definition rowToCSV :: "CSVRow \<Rightarrow> string" where
  "rowToCSV row =
     join [comma]
       [escapeCSVField (server_name row), escapeCSVField (server_id row),
        escapeCSVField (channel_name row), escapeCSVField (channel_id row),
        escapeCSVField (data row)]"

text \<open>
  \<open>convertToCsvRows\<close>. \<open>JSON.stringify\<close> is a builtin of the language and is taken as
  the parameter \<open>stringify\<close>.
\<close>

definition convertToCsvRows ::
  "(DiscordMessage \<Rightarrow> string) \<Rightarrow> DiscordMessage list \<Rightarrow> ServerMetadata \<Rightarrow> CSVRow list" where
  "convertToCsvRows stringify msgs metadata =
     map (\<lambda>msg. \<lparr>server_name = serverName metadata, server_id = serverId metadata,
                  channel_name = channelName metadata, channel_id = channelId metadata,
                  data = stringify msg\<rparr>) msgs"

subsection \<open>Reading a row back: the quoting rule of RFC 4180\<close>

text \<open>
  The repository only writes the artifact. The reader below is the grammar of RFC 4180
  with the artifact's line terminator (a single newline): a field is either quoted
  (it ends at a quote that is not followed by a second quote, and a doubled quote stands
  for one quote) or plain (it ends at the next comma or newline and holds no quote);
  fields are separated by commas and records are ended by newlines.
  The state is the mode, the field being read, the fields of the record being read and
  the records already read.
\<close>

datatype csv_mode = FieldStart | Plain | Quoted | QuoteSeen

fun parseCSV_from ::
  "csv_mode \<Rightarrow> string \<Rightarrow> string list \<Rightarrow> string list list \<Rightarrow> string \<Rightarrow> string list list option" where
  "parseCSV_from m cur fs rows [] =
     (case m of
        Quoted \<Rightarrow> None
      | FieldStart \<Rightarrow> if fs = [] then Some rows else Some (rows @ [fs @ [cur]])
      | _ \<Rightarrow> Some (rows @ [fs @ [cur]]))"
| "parseCSV_from m cur fs rows (c # cs) =
     (case m of
        FieldStart \<Rightarrow>
          if c = dquote then parseCSV_from Quoted [] fs rows cs
          else if c = comma then parseCSV_from FieldStart [] (fs @ [[]]) rows cs
          else if c = newline then parseCSV_from FieldStart [] [] (rows @ [fs @ [[]]]) cs
          else parseCSV_from Plain [c] fs rows cs
      | Plain \<Rightarrow>
          if c = dquote then None
          else if c = comma then parseCSV_from FieldStart [] (fs @ [cur]) rows cs
          else if c = newline then parseCSV_from FieldStart [] [] (rows @ [fs @ [cur]]) cs
          else parseCSV_from Plain (cur @ [c]) fs rows cs
      | Quoted \<Rightarrow>
          if c = dquote then parseCSV_from QuoteSeen cur fs rows cs
          else parseCSV_from Quoted (cur @ [c]) fs rows cs
      | QuoteSeen \<Rightarrow>
          if c = dquote then parseCSV_from Quoted (cur @ [dquote]) fs rows cs
          else if c = comma then parseCSV_from FieldStart [] (fs @ [cur]) rows cs
          else if c = newline then parseCSV_from FieldStart [] [] (rows @ [fs @ [cur]]) cs
          else None)"

definition parseCSV :: "string \<Rightarrow> string list list option" where
  "parseCSV s = parseCSV_from FieldStart [] [] [] s"

definition row_fields :: "CSVRow \<Rightarrow> string list" where
  "row_fields row = [server_name row, server_id row, channel_name row, channel_id row, data row]"

subsection \<open>Appending to the artifact\<close>


definition digit_char :: "nat \<Rightarrow> char" where
  "digit_char d = ''0123456789'' ! d"

text \<open>A number in a template string: its decimal digits.\<close>

fun show_nat :: "nat \<Rightarrow> string" where
  "show_nat n =
     (if n < 10 then [digit_char n] else show_nat (n div 10) @ [digit_char (n mod 10)])"

declare show_nat.simps [simp del]








section \<open>The world outside: clock, timers and the remote feed\<close>

text \<open>
  \<open>clock\<close> is the wall clock in milliseconds, as \<open>Date.now()\<close> reads it. Time passes
  outside the program's control: \<open>ticks\<close> holds, for each reading of the clock still to
  come, the time that has passed since the last event (a slow request, a busy event
  loop). A timer is not run by the wall clock: \<open>drift\<close> holds, for each timer still to
  come, how much later than asked the caller resumes by the wall clock, or, when
  negative, how much earlier. \<open>slept\<close> records the delays asked for, in order. \<open>remote\<close>
  is the state of everything reached over the network or the file system.
\<close>

record 's world =
  clock :: int
  ticks :: "nat list"
  drift :: "int list"
  slept :: "int list"
  remote :: 's

definition Date_now :: "'s world \<Rightarrow> int \<times> 's world" where
  "Date_now w =
     (case ticks w of
        [] \<Rightarrow> (clock w, w)
      | d # ds \<Rightarrow> (clock w + int d, w\<lparr>clock := clock w + int d, ticks := ds\<rparr>))"

text \<open>
  \<open>delay(ms)\<close>: one \<open>setTimeout\<close>. The caller resumes when the timer fires, which by the
  wall clock is \<open>ms\<close> later give or take the timer's drift; nothing in the source reads
  the clock to see how long the wait was.
\<close>

definition delay :: "int \<Rightarrow> 's world \<Rightarrow> 's world" where
  "delay ms w =
     (case drift w of
        [] \<Rightarrow> w\<lparr>clock := clock w + max ms 0, slept := slept w @ [ms]\<rparr>
      | j # js \<Rightarrow>
          w\<lparr>clock := clock w + max (ms + j) 0, drift := js, slept := slept w @ [ms]\<rparr>)"

text \<open>No timer still to come fires early.\<close>

definition punctual :: "'s world \<Rightarrow> bool" where
  "punctual w = list_all (\<lambda>j. 0 \<le> j) (drift w)"

section \<open>Constants (config/constants)\<close>

definition RATE_LIMIT_REQUESTS_PER_SECOND :: nat where
  "RATE_LIMIT_REQUESTS_PER_SECOND = 10"

definition RATE_LIMIT_MAX_RETRIES :: nat where
  "RATE_LIMIT_MAX_RETRIES = 3"

definition RATE_LIMIT_RETRY_DELAY_MS :: int where
  "RATE_LIMIT_RETRY_DELAY_MS = 1000"

definition PAGINATION_DELAY_MS :: int where
  "PAGINATION_DELAY_MS = 100"

section \<open>The rate limiter (core/rate-limiter/RateLimiter)\<close>

record RateLimiter =
  requestTimes :: "int list"
  requestsPerSecond :: nat
  maxRetries :: nat
  retryDelay :: int

text \<open>The constructor.\<close>

definition new_RateLimiter :: RateLimiter where
  "new_RateLimiter =
     \<lparr>requestTimes = [], requestsPerSecond = RATE_LIMIT_REQUESTS_PER_SECOND,
      maxRetries = RATE_LIMIT_MAX_RETRIES, retryDelay = RATE_LIMIT_RETRY_DELAY_MS\<rparr>"

text \<open>
  \<open>waitForRateLimit\<close>. When the window is full and empty at once (a cap of 0),
  \<open>requestTimes[0]\<close> is \<open>undefined\<close>, the wait time is \<open>NaN\<close> and \<open>NaN > 0\<close> is false:
  no wait.
\<close>

definition waitForRateLimit :: "RateLimiter \<Rightarrow> 's world \<Rightarrow> RateLimiter \<times> 's world" where
  "waitForRateLimit rl w =
     (case Date_now w of (now, w1) \<Rightarrow>
        let oneSecondAgo = now - 1000;
            times = filter (\<lambda>time. time > oneSecondAgo) (requestTimes rl);
            w2 = (if length times \<ge> requestsPerSecond rl
                  then (case times of
                          [] \<Rightarrow> w1
                        | oldestRequest # _ \<Rightarrow>
                            let waitTime = oldestRequest + 1000 - now
                            in if waitTime > 0 then delay waitTime w1 else w1)
                  else w1)
        in case Date_now w2 of (recorded, w3) \<Rightarrow> (rl\<lparr>requestTimes := times @ [recorded]\<rparr>, w3))"

text \<open>\<open>String.prototype.includes\<close>.\<close>

fun str_includes :: "string \<Rightarrow> string \<Rightarrow> bool" where
  "str_includes [] sub = (sub = [])"
| "str_includes (c # cs) sub = (prefix sub (c # cs) \<or> str_includes cs sub)"

text \<open>
  An operation run by \<open>executeWithRetry\<close> acts on the world and either returns a value
  (\<open>Inr\<close>) or throws (\<open>Inl\<close>). A thrown value is kept as the text the code reads from it:
  \<open>error.message\<close> for an \<open>Error\<close>, \<open>String(error)\<close> otherwise.

  The \<open>for\<close> loop of \<open>executeWithRetry\<close>, from attempt \<open>attempt\<close>, with the limit and the
  base delay read from the limiter's fields. \<open>lastError\<close> is \<open>None\<close> while it is \<open>null\<close>;
  throwing \<open>null\<close> reads as the text \<open>null\<close>.
\<close>

function retryLoop ::
  "nat \<Rightarrow> int \<Rightarrow> ('s world \<Rightarrow> (string + 'a) \<times> 's world) \<Rightarrow> nat \<Rightarrow> string option \<Rightarrow>
   RateLimiter \<Rightarrow> 's world \<Rightarrow> (string + 'a) \<times> RateLimiter \<times> 's world" where
  "retryLoop maxRetries' retryDelay' fn attempt lastError rl w =
     (if attempt \<le> maxRetries' then
        (case waitForRateLimit rl w of (rl1, w1) \<Rightarrow>
           (case fn w1 of
              (Inr v, w2) \<Rightarrow> (Inr v, rl1, w2)
            | (Inl msg, w2) \<Rightarrow>
                if str_includes msg ''429'' then
                  retryLoop maxRetries' retryDelay' fn (attempt + 1) (Some msg) rl1
                    (if attempt < maxRetries'
                     then delay (retryDelay' * 2 ^ (attempt - 1)) w2 else w2)
                else (Inl msg, rl1, w2)))
      else (Inl (case lastError of None \<Rightarrow> ''null'' | Some msg \<Rightarrow> msg), rl, w))"
  by pat_completeness auto
termination
  by (relation "measure (\<lambda>(m, r, fn, attempt, lastError, rl, w). Suc m - attempt)") auto

declare retryLoop.simps [simp del]

definition executeWithRetry ::
  "('s world \<Rightarrow> (string + 'a) \<times> 's world) \<Rightarrow> RateLimiter \<Rightarrow> 's world \<Rightarrow>
   (string + 'a) \<times> RateLimiter \<times> 's world" where
  "executeWithRetry fn rl w = retryLoop (maxRetries rl) (retryDelay rl) fn 1 None rl w"

section \<open>Fetching a page (core/scraper/DiscordScraper)\<close>

text \<open>
  What the global \<open>fetch\<close> gives: the promise rejects only when no response arrives
  (\<open>Rejected msg\<close>); any response, whatever its status, resolves it. \<open>json\<close> is what
  \<open>response.json()\<close> does: it throws (\<open>Inl\<close>) or returns the parsed page.
\<close>

record http_response =
  status :: nat
  json :: "string + DiscordMessage list"

datatype http_result = Rejected string | Resolved http_response

text \<open>\<open>response.ok\<close>.\<close>

definition ok :: "http_response \<Rightarrow> bool" where
  "ok r = (200 \<le> status r \<and> status r \<le> 299)"

text \<open>
  The remote feed answers a request for the messages before a cursor. The channel and
  the limit (always 100) are fixed for a run; the request is told apart by its
  \<open>before\<close> parameter, absent when the URL has none.
\<close>

type_synonym 's feed = "string option \<Rightarrow> 's \<Rightarrow> http_result \<times> 's"

text \<open>The function handed to \<open>executeWithRetry\<close>: one call of \<open>fetch\<close>.\<close>

definition fetch_call :: "'s feed \<Rightarrow> string option \<Rightarrow> 's world \<Rightarrow> (string + http_response) \<times> 's world" where
  "fetch_call feed query w =
     (case feed query (remote w) of
        (Rejected msg, s') \<Rightarrow> (Inl msg, w\<lparr>remote := s'\<rparr>)
      | (Resolved response, s') \<Rightarrow> (Inr response, w\<lparr>remote := s'\<rparr>))"

text \<open>
  The \<open>before\<close> parameter of the URL: \<open>if (before)\<close> adds it for a string that is
  neither \<open>undefined\<close> nor empty.
\<close>

definition query_of :: "string option \<Rightarrow> string option" where
  "query_of before' = (case before' of None \<Rightarrow> None | Some b \<Rightarrow> if b = [] then None else Some b)"

text \<open>
  \<open>fetchMessageBatch\<close>. The token is loaded by the time this runs, so \<open>getToken\<close>
  returns.
\<close>

definition fetchMessageBatch ::
  "'s feed \<Rightarrow> string option \<Rightarrow> RateLimiter \<Rightarrow> 's world \<Rightarrow>
   (string + DiscordMessage list) \<times> RateLimiter \<times> 's world" where
  "fetchMessageBatch feed before' rl w =
     (case executeWithRetry (fetch_call feed (query_of before')) rl w of
        (Inl msg, rl', w') \<Rightarrow> (Inl msg, rl', w')
      | (Inr response, rl', w') \<Rightarrow>
          if \<not> ok response
          then (Inl (''API returned status '' @ show_nat (status response)), rl', w')
          else (case json response of
                  Inl msg \<Rightarrow> (Inl msg, rl', w')
                | Inr messages \<Rightarrow> (Inr messages, rl', w')))"

section \<open>Filtering by timestamp\<close>

text \<open>
  A \<open>Date\<close> is its time value: milliseconds since the epoch, or \<open>None\<close> for an invalid
  date (\<open>NaN\<close>). \<open>new Date(string)\<close> is a builtin and is taken as the parameter
  \<open>new_Date\<close>. A comparison with an invalid date is false.
\<close>

type_synonym Date = "int option"

definition date_less :: "Date \<Rightarrow> Date \<Rightarrow> bool" where
  "date_less a b = (case (a, b) of (Some x, Some y) \<Rightarrow> x < y | _ \<Rightarrow> False)"

text \<open>\<open>filterByTimestamp\<close>; a bound is \<open>None\<close> when it is \<open>null\<close>.\<close>

definition filterByTimestamp ::
  "(string \<Rightarrow> Date) \<Rightarrow> DiscordMessage list \<Rightarrow> Date option \<Rightarrow> Date option \<Rightarrow> DiscordMessage list" where
  "filterByTimestamp new_Date messages startDate endDate =
     (if startDate = None \<and> endDate = None then messages
      else filter (\<lambda>msg.
             let msgDate = new_Date (timestamp msg)
             in if (case startDate of None \<Rightarrow> False | Some s \<Rightarrow> date_less msgDate s) then False
                else if (case endDate of None \<Rightarrow> False | Some e \<Rightarrow> date_less e msgDate) then False
                else True) messages)"

section \<open>The scrape loop\<close>

record PaginationState =
  before :: "string option"
  after :: "string option"
  hasMore :: bool
  totalFetched :: nat
  lastMessageId :: "string option"

text \<open>
  \<open>ScraperResult\<close>; its fields \<open>serverId\<close> and \<open>channelId\<close> carry a prefix, the plain names
  being fields of \<open>ServerMetadata\<close>.
\<close>

record ScraperResult =
  result_serverId :: string
  result_channelId :: string
  messages :: "DiscordMessage list"
  totalScraped :: nat
  totalAppended :: nat
  errors :: "string list"
  warnings :: "string list"
  duration :: int

text \<open>
  What the scraper calls and does not own: the session manager's two operations
  (\<open>loadOrCreateSession\<close> throws with \<open>Some msg\<close>), the request that probes the channel
  (\<open>messages?limit=1\<close>), the feed of pages, and \<open>new Date\<close>.
\<close>

record 's collaborators =
  loadOrCreateSession :: "'s \<Rightarrow> string option \<times> 's"
  isSessionValid :: "'s \<Rightarrow> bool \<times> 's"
  channel_probe :: "'s \<Rightarrow> http_result \<times> 's"
  feed :: "'s feed"
  new_Date :: "string \<Rightarrow> Date"

text \<open>\<open>setupAuthentication\<close>: \<open>Some msg\<close> is the error it throws.\<close>

definition setupAuthentication :: "'s collaborators \<Rightarrow> 's world \<Rightarrow> string option \<times> 's world" where
  "setupAuthentication env w =
     (case loadOrCreateSession env (remote w) of
        (Some msg, s1) \<Rightarrow> (Some msg, w\<lparr>remote := s1\<rparr>)
      | (None, s1) \<Rightarrow>
          (case isSessionValid env s1 of
             (isValid, s2) \<Rightarrow>
               if \<not> isValid then (Some ''Token is not valid'', w\<lparr>remote := s2\<rparr>)
               else (None, w\<lparr>remote := s2\<rparr>)))"

text \<open>\<open>validateSession\<close>: \<open>Some reason\<close> when the session is not valid.\<close>

definition validateSession :: "'s collaborators \<Rightarrow> 's world \<Rightarrow> string option \<times> 's world" where
  "validateSession env w =
     (case loadOrCreateSession env (remote w) of
        (Some msg, s1) \<Rightarrow> (Some msg, w\<lparr>remote := s1\<rparr>)
      | (None, s1) \<Rightarrow>
          (case isSessionValid env s1 of
             (isValid, s2) \<Rightarrow>
               if \<not> isValid then (Some ''Token is invalid or expired'', w\<lparr>remote := s2\<rparr>)
               else (None, w\<lparr>remote := s2\<rparr>)))"

text \<open>\<open>validateChannelAccess\<close>: \<open>Some reason\<close> when there is no access.\<close>

definition validateChannelAccess :: "'s collaborators \<Rightarrow> 's world \<Rightarrow> string option \<times> 's world" where
  "validateChannelAccess env w =
     (case channel_probe env (remote w) of
        (Rejected msg, s1) \<Rightarrow> (Some msg, w\<lparr>remote := s1\<rparr>)
      | (Resolved response, s1) \<Rightarrow>
          (if ok response then None
           else if status response = 403 then Some ''No permission to access this channel''
           else if status response = 404 then Some ''Channel not found''
           else Some (''API returned status '' @ show_nat (status response)),
           w\<lparr>remote := s1\<rparr>))"

text \<open>\<open>fullValidation\<close> returns its list of errors; \<open>isValid\<close> is that the list is empty.\<close>

definition fullValidation :: "'s collaborators \<Rightarrow> 's world \<Rightarrow> string list \<times> 's world" where
  "fullValidation env w =
     (case validateSession env w of
        (sessionValidation, w1) \<Rightarrow>
          (case validateChannelAccess env w1 of
             (channelValidation, w2) \<Rightarrow>
               ((case sessionValidation of
                   None \<Rightarrow> []
                 | Some reason \<Rightarrow> [''Session validation failed: '' @ reason]) @
                (case channelValidation of
                   None \<Rightarrow> []
                 | Some reason \<Rightarrow> [''Channel access validation failed: '' @ reason]),
                w2)))"

text \<open>
  The variables of the loop. \<open>fetches\<close> is not a variable of the source: it logs every
  call of \<open>fetchMessageBatch\<close>, the cursor it was given and what came back, so that
  properties of a run can speak of its fetches.
\<close>

record 's scrape_state =
  allMessages :: "DiscordMessage list"
  paginationState :: PaginationState
  limiter :: RateLimiter
  world :: "'s world"
  fetches :: "(string option \<times> (string + DiscordMessage list)) list"

datatype 's outcome =
    Thrown string "'s scrape_state"
  | Break "'s scrape_state"
  | Continue "'s scrape_state"

text \<open>One pass through the body of the \<open>while\<close> loop.\<close>

definition scrapeStep ::
  "'s collaborators \<Rightarrow> int \<Rightarrow> Date option \<Rightarrow> Date option \<Rightarrow> 's scrape_state \<Rightarrow> 's outcome" where
  "scrapeStep env maxMessages startDate endDate st =
     (case fetchMessageBatch (feed env) (before (paginationState st)) (limiter st) (world st) of
        (Inl msg, rl', w') \<Rightarrow>
          Thrown msg
            (st\<lparr>limiter := rl', world := w',
                fetches := fetches st @ [(before (paginationState st), Inl msg)]\<rparr>)
      | (Inr batch, rl', w') \<Rightarrow>
          (let st1 = st\<lparr>limiter := rl', world := w',
                         fetches := fetches st @ [(before (paginationState st), Inr batch)]\<rparr>
           in if batch = [] then
                Break (st1\<lparr>paginationState := (paginationState st)\<lparr>hasMore := False\<rparr>\<rparr>)
              else
                (let filteredBatch = filterByTimestamp (new_Date env) batch startDate endDate;
                     all = allMessages st @ filteredBatch;
                     lastMessage = last batch;
                     pag = (paginationState st)
                             \<lparr>totalFetched := totalFetched (paginationState st) + length batch,
                              before := Some (id_msg lastMessage),
                              lastMessageId := Some (id_msg lastMessage)\<rparr>
                 in if maxMessages > 0 \<and> int (length all) \<ge> maxMessages then
                      Break (st1\<lparr>allMessages := take (nat maxMessages) all,
                                  paginationState := pag\<lparr>hasMore := False\<rparr>\<rparr>)
                    else
                      Continue (st1\<lparr>allMessages := all, paginationState := pag,
                                     world := (if hasMore pag then delay PAGINATION_DELAY_MS w'
                                               else w')\<rparr>))))"

text \<open>
  The \<open>while\<close> loop. The feed may never run dry, so the loop may never end: the first
  argument bounds the number of passes, and \<open>None\<close> is a loop still running when the
  bound is reached. Otherwise the result is the state at the exit and, when the exit was
  an exception, its message.
\<close>

fun scrapeLoop ::
  "nat \<Rightarrow> 's collaborators \<Rightarrow> int \<Rightarrow> Date option \<Rightarrow> Date option \<Rightarrow> 's scrape_state \<Rightarrow>
   (string option \<times> 's scrape_state) option" where
  "scrapeLoop 0 env maxMessages startDate endDate st =
     (if hasMore (paginationState st) then None else Some (None, st))"
| "scrapeLoop (Suc n) env maxMessages startDate endDate st =
     (if hasMore (paginationState st) then
        (case scrapeStep env maxMessages startDate endDate st of
           Thrown msg st' \<Rightarrow> Some (Some msg, st')
         | Break st' \<Rightarrow> Some (None, st')
         | Continue st' \<Rightarrow> scrapeLoop n env maxMessages startDate endDate st')
      else Some (None, st))"

text \<open>\<open>timestampStart ? new Date(timestampStart) : null\<close>.\<close>

definition parse_bound :: "(string \<Rightarrow> Date) \<Rightarrow> string option \<Rightarrow> Date option" where
  "parse_bound new_Date' ts =
     (case ts of None \<Rightarrow> None | Some t \<Rightarrow> if t = [] then None else Some (new_Date' t))"

definition initial_state :: "RateLimiter \<Rightarrow> 's world \<Rightarrow> 's scrape_state" where
  "initial_state rl w =
     \<lparr>allMessages = [],
      paginationState = \<lparr>before = None, after = None, hasMore = True, totalFetched = 0,
                         lastMessageId = None\<rparr>,
      limiter = rl, world = w, fetches = []\<rparr>"

text \<open>
  The body of the \<open>try\<close> block of \<open>scrapeChannel\<close>, after \<open>startTime\<close> is read: the
  exception it ends with (if any), the list \<open>errors\<close> and the state.
\<close>

definition scrape_try ::
  "nat \<Rightarrow> 's collaborators \<Rightarrow> int \<Rightarrow> string option \<Rightarrow> string option \<Rightarrow> RateLimiter \<Rightarrow> 's world \<Rightarrow>
   (string option \<times> string list \<times> 's scrape_state) option" where
  "scrape_try bound env maxMessages timestampStart timestampEnd rl w =
     (case setupAuthentication env w of
        (Some msg, w1) \<Rightarrow> Some (Some msg, [], initial_state rl w1)
      | (None, w1) \<Rightarrow>
          (case fullValidation env w1 of
             (validation_errors, w2) \<Rightarrow>
               if validation_errors \<noteq> [] then
                 Some (Some (''Validation failed: '' @ join ''; '' validation_errors),
                       validation_errors, initial_state rl w2)
               else
                 (let startDate = parse_bound (new_Date env) timestampStart;
                      endDate = parse_bound (new_Date env) timestampEnd
                  in case scrapeLoop bound env maxMessages startDate endDate (initial_state rl w2) of
                       None \<Rightarrow> None
                     | Some (thrown, st) \<Rightarrow> Some (thrown, [], st))))"

text \<open>
  \<open>scrapeChannel\<close>: the \<open>try\<close> block returns the result, and the \<open>catch\<close> block adds the
  message of the exception to \<open>errors\<close> and returns the same result. Both read the clock
  twice, for the log and for \<open>duration\<close>. The scraper's limiter and the state at the exit
  are returned with the result.
\<close>

definition scrapeChannel ::
  "nat \<Rightarrow> 's collaborators \<Rightarrow> string \<Rightarrow> string \<Rightarrow> int \<Rightarrow> string option \<Rightarrow> string option \<Rightarrow>
   RateLimiter \<Rightarrow> 's world \<Rightarrow> (ScraperResult \<times> 's scrape_state) option" where
  "scrapeChannel bound env serverId' channelId' maxMessages timestampStart timestampEnd rl w =
     (case Date_now w of
        (startTime, w0) \<Rightarrow>
          (case scrape_try bound env maxMessages timestampStart timestampEnd rl w0 of
             None \<Rightarrow> None
           | Some (thrown, errors', st) \<Rightarrow>
               (case Date_now (world st) of
                  (logged, w3) \<Rightarrow>
                    (case Date_now w3 of
                       (finished, w4) \<Rightarrow>
                         Some (\<lparr>result_serverId = serverId', result_channelId = channelId',
                                 messages = allMessages st,
                                 totalScraped = length (allMessages st),
                                 totalAppended = 0,
                                 errors = (case thrown of None \<Rightarrow> errors'
                                           | Some msg \<Rightarrow> errors' @ [msg]),
                                 warnings = [],
                                 duration = finished - startTime\<rparr>,
                               st\<lparr>world := w4\<rparr>)))))"

subsection \<open>Reading a run from its log of fetches\<close>

text \<open>The pages a run received, and what the filter kept of them, in the order of the fetches.\<close>

definition page_of :: "string option \<times> (string + DiscordMessage list) \<Rightarrow> DiscordMessage list" where
  "page_of f = (case snd f of Inl msg \<Rightarrow> [] | Inr page \<Rightarrow> page)"

definition pages_of :: "(string option \<times> (string + DiscordMessage list)) list \<Rightarrow> DiscordMessage list" where
  "pages_of fs = concat (map page_of fs)"

definition kept_of ::
  "(string \<Rightarrow> Date) \<Rightarrow> Date option \<Rightarrow> Date option \<Rightarrow>
   (string option \<times> (string + DiscordMessage list)) list \<Rightarrow> DiscordMessage list" where
  "kept_of new_Date' startDate endDate fs =
     concat (map (\<lambda>f. filterByTimestamp new_Date' (page_of f) startDate endDate) fs)"

text \<open>
  Each fetch but the last returned a page that is not empty, and the next fetch was given
  the id of that page's last message.
\<close>

fun cursor_chain :: "(string option \<times> (string + DiscordMessage list)) list \<Rightarrow> bool" where
  "cursor_chain [] = True"
| "cursor_chain [f] = True"
| "cursor_chain (f # g # fs) =
     ((case snd f of
         Inl msg \<Rightarrow> False
       | Inr page \<Rightarrow> page \<noteq> [] \<and> fst g = Some (id_msg (last page))) \<and>
      cursor_chain (g # fs))"

text \<open>
  The order of cursors along a feed: \<open>cursor_after rank a b\<close> when \<open>b\<close> points further
  back than \<open>a\<close>. No cursor is the newest end of the feed; \<open>rank\<close> is the order of the
  ids (for Discord's ids, the number they spell).
\<close>

definition cursor_after :: "(string \<Rightarrow> nat) \<Rightarrow> string option \<Rightarrow> string option \<Rightarrow> bool" where
  "cursor_after rank a b =
     (case b of
        None \<Rightarrow> False
      | Some y \<Rightarrow> (case a of None \<Rightarrow> True | Some x \<Rightarrow> rank y < rank x))"

text \<open>
  What the scraper expects of the feed: a page is newest first, with ids that are not
  empty and that lie strictly before the cursor of the request.
\<close>

definition page_ok :: "(string \<Rightarrow> nat) \<Rightarrow> string option \<Rightarrow> DiscordMessage list \<Rightarrow> bool" where
  "page_ok rank query page =
     (sorted_wrt (\<lambda>a b. rank (id_msg b) < rank (id_msg a)) page \<and>
      list_all (\<lambda>m. id_msg m \<noteq> [] \<and>
                    (case query of None \<Rightarrow> True | Some b \<Rightarrow> rank (id_msg m) < rank b)) page)"

definition feed_ok :: "(string \<Rightarrow> nat) \<Rightarrow> 's feed \<Rightarrow> bool" where
  "feed_ok rank fd =
     (\<forall>query s response s' page.
        fd query s = (Resolved response, s') \<and> ok response \<and> json response = Inr page
        \<longrightarrow> page_ok rank query page)"

subsection \<open>A run of admissions\<close>

text \<open>\<open>n\<close> calls of \<open>waitForRateLimit\<close> in a row, with the timestamp each one recorded.\<close>

fun admissions :: "nat \<Rightarrow> RateLimiter \<Rightarrow> 's world \<Rightarrow> int list \<times> RateLimiter \<times> 's world" where
  "admissions 0 rl w = ([], rl, w)"
| "admissions (Suc n) rl w =
     (case waitForRateLimit rl w of
        (rl1, w1) \<Rightarrow>
          (case admissions n rl1 w1 of
             (ts, rl2, w2) \<Rightarrow> (last (requestTimes rl1) # ts, rl2, w2)))"

text \<open>The timestamps of \<open>ts\<close> younger than 1000ms at time \<open>t\<close>.\<close>

definition in_window :: "int \<Rightarrow> int list \<Rightarrow> int list" where
  "in_window t ts = filter (\<lambda>x. t - 1000 < x \<and> x \<le> t) ts"

text \<open>The state a pass through the loop body leaves.\<close>

fun state_of :: "'s outcome \<Rightarrow> 's scrape_state" where
  "state_of (Thrown msg st) = st"
| "state_of (Break st) = st"
| "state_of (Continue st) = st"

text \<open>A fetch that returned a page with messages in it.\<close>

definition nonempty_page :: "string option \<times> (string + DiscordMessage list) \<Rightarrow> bool" where
  "nonempty_page f = (case snd f of Inl msg \<Rightarrow> False | Inr page \<Rightarrow> page \<noteq> [])"

subsection \<open>The walk along the feed\<close>

text \<open>
  What holds of the log and the cursor at the head of every pass, and of the log at the
  end of a run.
\<close>

definition walk_invariant :: "(string \<Rightarrow> nat) \<Rightarrow> 's scrape_state \<Rightarrow> bool" where
  "walk_invariant rank s =
     (cursor_chain (fetches s) \<and>
      sorted_wrt (cursor_after rank) (map fst (fetches s)) \<and>
      sorted_wrt (\<lambda>a b. rank (id_msg b) < rank (id_msg a)) (pages_of (fetches s)) \<and>
      (fetches s = [] \<longrightarrow> before (paginationState s) = None) \<and>
      (fetches s \<noteq> [] \<longrightarrow>
         (\<exists>page. snd (last (fetches s)) = Inr page \<and> page \<noteq> [] \<and>
            before (paginationState s) = Some (id_msg (last page)))) \<and>
      (\<forall>c \<in> set (map fst (fetches s)). cursor_after rank c (before (paginationState s))) \<and>
      (\<forall>m \<in> set (pages_of (fetches s)).
         \<exists>b. before (paginationState s) = Some b \<and> rank b \<le> rank (id_msg m)) \<and>
      (\<forall>b. before (paginationState s) = Some b \<longrightarrow> b \<noteq> []))"

definition walk_result :: "(string \<Rightarrow> nat) \<Rightarrow> (string option \<times> (string + DiscordMessage list)) list \<Rightarrow> bool" where
  "walk_result rank fs =
     (cursor_chain fs \<and>
      sorted_wrt (cursor_after rank) (map fst fs) \<and>
      sorted_wrt (\<lambda>a b. rank (id_msg b) < rank (id_msg a)) (pages_of fs))"

subsection \<open>Operations that play a script\<close>

text \<open>
  An operation whose successive calls give the successive outcomes of a list held in the
  remote state, and a feed whose successive requests get the successive responses of such
  a list.
\<close>

definition scripted :: "(string + 'a) list world \<Rightarrow> (string + 'a) \<times> (string + 'a) list world" where
  "scripted w =
     (case remote w of
        [] \<Rightarrow> (Inl ''script ended'', w)
      | r # rs \<Rightarrow> (r, w\<lparr>remote := rs\<rparr>))"

definition scripted_feed :: "http_result list feed" where
  "scripted_feed query s =
     (case s of
        [] \<Rightarrow> (Rejected ''script ended'', [])
      | r # rs \<Rightarrow> (r, rs))"

subsection \<open>The parts of an admission\<close>

text \<open>
  The window \<open>waitForRateLimit\<close> is left with after pruning at the time \<open>now\<close>, and the
  world after its wait, if it waits.
\<close>

definition pruned :: "int \<Rightarrow> RateLimiter \<Rightarrow> int list" where
  "pruned now rl = filter (\<lambda>time. time > now - 1000) (requestTimes rl)"

definition after_wait :: "int \<Rightarrow> RateLimiter \<Rightarrow> 's world \<Rightarrow> 's world" where
  "after_wait now rl wa =
     (if length (pruned now rl) \<ge> requestsPerSecond rl
      then (case pruned now rl of
              [] \<Rightarrow> wa
            | oldestRequest # _ \<Rightarrow>
                if oldestRequest + 1000 - now > 0
                then delay (oldestRequest + 1000 - now) wa else wa)
      else wa)"

text \<open>
  What holds between the timestamps recorded so far (\<open>history\<close>), the limiter and the
  clock while no timer fires early: nothing is recorded in the future, the limiter holds
  the part of the history after some moment at least 1000ms ago, and no window of 1000ms
  holds more timestamps than the cap.
\<close>

definition window_invariant :: "int list \<Rightarrow> RateLimiter \<Rightarrow> 's world \<Rightarrow> bool" where
  "window_invariant history rl w =
     (punctual w \<and>
      list_all (\<lambda>x. x \<le> clock w) history \<and>
      (\<exists>c. c + 1000 \<le> clock w \<and> requestTimes rl = filter (\<lambda>x. c < x) history) \<and>
      (\<forall>t. length (in_window t history) \<le> requestsPerSecond rl))"

section \<open>Sample inputs\<close>

text \<open>A message whose text holds a comma, quotes and a newline, and a toy serialisation.\<close>

definition sample_message :: DiscordMessage where
  "sample_message =
     \<lparr>id_msg = ''3'', timestamp = ''2026-01-28T10:00:00Z'',
      content = [CHR ''a'', comma, CHR '' '', dquote, CHR ''b'', dquote, newline, CHR ''c'']\<rparr>"

definition sample_metadata :: ServerMetadata where
  "sample_metadata =
     \<lparr>serverName = ''My, server'', serverId = ''11'', channelName = ''general'', channelId = ''22''\<rparr>"

definition sample_stringify :: "DiscordMessage \<Rightarrow> string" where
  "sample_stringify m = id_msg m @ ''|'' @ content m"

definition sample_parse :: "string \<Rightarrow> DiscordMessage option" where
  "sample_parse s =
     (if s = sample_stringify sample_message then Some sample_message else None)"

text \<open>
  A channel of three messages, newest first, served two to a page; ids are ranked by the
  number they spell.
\<close>

definition snowflake :: "string \<Rightarrow> nat" where
  "snowflake s = foldl (\<lambda>n c. 10 * n + (of_char c - 48)) 0 s"

definition sample_channel :: "DiscordMessage list" where
  "sample_channel =
     [\<lparr>id_msg = ''30'', timestamp = ''2026-01-30'', content = ''third''\<rparr>,
      \<lparr>id_msg = ''20'', timestamp = ''2026-01-29'', content = ''second''\<rparr>,
      \<lparr>id_msg = ''10'', timestamp = ''2026-01-28'', content = ''first''\<rparr>]"

definition sample_feed :: "unit feed" where
  "sample_feed query s =
     (Resolved \<lparr>status = 200,
                json = Inr (take 2 (filter (\<lambda>m. case query of None \<Rightarrow> True
                                                 | Some b \<Rightarrow> snowflake (id_msg m) < snowflake b)
                                      sample_channel))\<rparr>, s)"

definition sample_new_Date :: "string \<Rightarrow> Date" where
  "sample_new_Date s =
     (if s = ''2026-01-28'' then Some 1769558400000
      else if s = ''2026-01-29'' then Some 1769644800000
      else if s = ''2026-01-30'' then Some 1769731200000
      else None)"

definition sample_env :: "unit collaborators" where
  "sample_env =
     \<lparr>loadOrCreateSession = (\<lambda>s. (None, s)), isSessionValid = (\<lambda>s. (True, s)),
      channel_probe = (\<lambda>s. (Resolved \<lparr>status = 200, json = Inr []\<rparr>, s)),
      feed = sample_feed, new_Date = sample_new_Date\<rparr>"

definition sample_world :: "unit world" where
  "sample_world = \<lparr>clock = 0, ticks = [], drift = [], slept = [], remote = ()\<rparr>"

text \<open>The state in which a run over the sample channel ends, with no bound and no cap.\<close>

definition sample_final :: "unit scrape_state" where
  "sample_final =
     \<lparr>allMessages = sample_channel,
      paginationState = \<lparr>before = Some ''10'', after = None, hasMore = False, totalFetched = 3,
                         lastMessageId = Some ''10''\<rparr>,
      limiter = new_RateLimiter\<lparr>requestTimes := [0, 100, 200]\<rparr>,
      world = \<lparr>clock = 200, ticks = [], drift = [], slept = [100, 100], remote = ()\<rparr>,
      fetches = [(None, Inr (take 2 sample_channel)), (Some ''20'', Inr (drop 2 sample_channel)),
                 (Some ''10'', Inr [])]\<rparr>"

text \<open>The same channel behind a feed that answers the second request with status 500.\<close>

definition failing_feed :: "unit feed" where
  "failing_feed query s =
     (if query = Some ''20''
      then (Resolved \<lparr>status = 500, json = Inl ''Unexpected token''\<rparr>, s)
      else sample_feed query s)"

definition failing_env :: "unit collaborators" where
  "failing_env = sample_env\<lparr>feed := failing_feed\<rparr>"

definition failing_final :: "unit scrape_state" where
  "failing_final =
     \<lparr>allMessages = take 2 sample_channel,
      paginationState = \<lparr>before = Some ''20'', after = None, hasMore = True, totalFetched = 2,
                         lastMessageId = Some ''20''\<rparr>,
      limiter = new_RateLimiter\<lparr>requestTimes := [0, 100]\<rparr>,
      world = \<lparr>clock = 100, ticks = [], drift = [], slept = [100], remote = ()\<rparr>,
      fetches = [(None, Inr (take 2 sample_channel)), (Some ''20'', Inl ''API returned status 500'')]\<rparr>"


definition capped_final :: "unit scrape_state" where
  "capped_final =
     \<lparr>allMessages = take 1 sample_channel,
      paginationState = \<lparr>before = Some ''20'', after = None, hasMore = False, totalFetched = 2,
                         lastMessageId = Some ''20''\<rparr>,
      limiter = new_RateLimiter\<lparr>requestTimes := [0]\<rparr>,
      world = sample_world,
      fetches = [(None, Inr (take 2 sample_channel))]\<rparr>"


definition sample_result :: ScraperResult where
  "sample_result =
     \<lparr>result_serverId = ''srv'', result_channelId = ''chan'', messages = sample_channel,
      totalScraped = 3, totalAppended = 0, errors = [], warnings = [], duration = 200\<rparr>"

text \<open>A world in which an operation fails three times with a rate-limit signal.\<close>

definition throttled_world :: "(string + nat) list world" where
  "throttled_world =
     \<lparr>clock = 0, ticks = [], drift = [], slept = [],
      remote = [Inl ''HTTP 429'', Inl ''429 Too Many Requests'', Inl ''still 429'', Inr 7]\<rparr>"

text \<open>
  A feed that answers with status 429 twice and then with a page, as the server does when
  it throttles.
\<close>

definition throttled_feed_world :: "http_result list world" where
  "throttled_feed_world =
     \<lparr>clock = 0, ticks = [], drift = [], slept = [],
      remote = [Resolved \<lparr>status = 429, json = Inr []\<rparr>,
                Resolved \<lparr>status = 429, json = Inr []\<rparr>,
                Resolved \<lparr>status = 200, json = Inr sample_channel\<rparr>]\<rparr>"

text \<open>A world whose first timer fires one millisecond early by the wall clock.\<close>

definition early_world :: "unit world" where
  "early_world = \<lparr>clock = 0, ticks = [], drift = [- 1], slept = [], remote = ()\<rparr>"

section \<open>Properties of the CSV quoting\<close>

lemma csv_chars_distinct [simp]:
  "comma \<noteq> dquote" "dquote \<noteq> comma" "comma \<noteq> newline" "newline \<noteq> comma"
  "dquote \<noteq> newline" "newline \<noteq> dquote"
  by (simp_all add: comma_def dquote_def newline_def)

lemma parse_plain_run:
  "comma \<notin> set v \<Longrightarrow> dquote \<notin> set v \<Longrightarrow> newline \<notin> set v \<Longrightarrow>
   parseCSV_from Plain cur fs rows (v @ rest) = parseCSV_from Plain (cur @ v) fs rows rest"
  by (induction v arbitrary: cur) auto

lemma parse_quoted_run:
  "parseCSV_from Quoted cur fs rows (double_quotes v @ dquote # rest) =
   parseCSV_from QuoteSeen (cur @ v) fs rows rest"
  by (induction v arbitrary: cur) auto

lemma parse_field_comma:
  "parseCSV_from FieldStart [] fs rows (escapeCSVField v @ comma # rest) =
   parseCSV_from FieldStart [] (fs @ [v]) rows rest"
proof (cases "comma \<in> set v \<or> dquote \<in> set v \<or> newline \<in> set v")
  case True
  then show ?thesis
    by (simp add: escapeCSVField_def parse_quoted_run)
next
  case False
  show ?thesis
  proof (cases v)
    case Nil
    then show ?thesis
      by (simp add: escapeCSVField_def)
  next
    case (Cons c cs)
    with False have "parseCSV_from FieldStart [] fs rows (v @ comma # rest) =
        parseCSV_from Plain [c] fs rows (cs @ comma # rest)"
      by auto
    also have "\<dots> = parseCSV_from Plain ([c] @ cs) fs rows (comma # rest)"
      using False Cons by (intro parse_plain_run) auto
    also have "\<dots> = parseCSV_from FieldStart [] (fs @ [v]) rows rest"
      using Cons by simp
    finally show ?thesis
      using False by (simp add: escapeCSVField_def)
  qed
qed

lemma parse_field_newline:
  "parseCSV_from FieldStart [] fs rows (escapeCSVField v @ newline # rest) =
   parseCSV_from FieldStart [] [] (rows @ [fs @ [v]]) rest"
proof (cases "comma \<in> set v \<or> dquote \<in> set v \<or> newline \<in> set v")
  case True
  then show ?thesis
    by (simp add: escapeCSVField_def parse_quoted_run)
next
  case False
  show ?thesis
  proof (cases v)
    case Nil
    then show ?thesis
      by (simp add: escapeCSVField_def)
  next
    case (Cons c cs)
    with False have "parseCSV_from FieldStart [] fs rows (v @ newline # rest) =
        parseCSV_from Plain [c] fs rows (cs @ newline # rest)"
      by auto
    also have "\<dots> = parseCSV_from Plain ([c] @ cs) fs rows (newline # rest)"
      using False Cons by (intro parse_plain_run) auto
    also have "\<dots> = parseCSV_from FieldStart [] [] (rows @ [fs @ [v]]) rest"
      using Cons by simp
    finally show ?thesis
      using False by (simp add: escapeCSVField_def)
  qed
qed

lemma parse_row_newline:
  "parseCSV_from FieldStart [] [] rows (rowToCSV row @ newline # rest) =
   parseCSV_from FieldStart [] [] (rows @ [row_fields row]) rest"
  by (simp add: rowToCSV_def row_fields_def parse_field_comma parse_field_newline)

lemma parse_joined_rows:
  "rs \<noteq> [] \<Longrightarrow>
   parseCSV_from FieldStart [] [] rows (join [newline] (map rowToCSV rs) @ [newline]) =
   Some (rows @ map row_fields rs)"
proof (induction rs arbitrary: rows)
  case Nil
  then show ?case by simp
next
  case (Cons r rs)
  show ?case
  proof (cases rs)
    case Nil
    then show ?thesis
      by (simp add: parse_row_newline)
  next
    case (Cons r' rs')
    then have "parseCSV_from FieldStart [] [] rows (join [newline] (map rowToCSV (r # rs)) @ [newline]) =
        parseCSV_from FieldStart [] [] (rows @ [row_fields r]) (join [newline] (map rowToCSV rs) @ [newline])"
      by (simp add: parse_row_newline)
    also have "\<dots> = Some ((rows @ [row_fields r]) @ map row_fields rs)"
      using Cons by (intro Cons.IH) simp
    finally show ?thesis by simp
  qed
qed

lemma row_fields_convert:
  "map row_fields (convertToCsvRows stringify msgs metadata) =
   map (\<lambda>m. [serverName metadata, serverId metadata, channelName metadata, channelId metadata,
              stringify m]) msgs"
  by (simp add: convertToCsvRows_def row_fields_def)

text \<open>
  C8. \<open>escapeCSVField\<close> wraps a value in quotes, with every quote inside doubled, exactly
  when the value holds a comma, a quote or a newline, and leaves it as it is otherwise.
  The quoting can be undone: read by the rule of RFC 4180, an escaped field gives back
  the value, a row gives back its five fields, and the text written for a batch gives
  back, row by row, the metadata and the serialised message; so a decoder that inverts
  the serialisation gives back the messages themselves.
\<close>

theorem escapeCSVField_round_trip:
  assumes "msgs \<noteq> []"
    and "\<forall>m \<in> set msgs. parse_json (stringify m) = Some m"
  shows "(comma \<in> set v \<or> dquote \<in> set v \<or> newline \<in> set v
            \<longrightarrow> escapeCSVField v = dquote # double_quotes v @ [dquote]) \<and>
         (comma \<notin> set v \<and> dquote \<notin> set v \<and> newline \<notin> set v \<longrightarrow> escapeCSVField v = v) \<and>
         parseCSV (escapeCSVField v @ [newline]) = Some [[v]] \<and>
         parseCSV (rowToCSV row @ [newline]) = Some [row_fields row] \<and>
         parseCSV (join [newline] (map rowToCSV (convertToCsvRows stringify msgs metadata)) @ [newline]) =
           Some (map (\<lambda>m. [serverName metadata, serverId metadata, channelName metadata,
                            channelId metadata, stringify m]) msgs) \<and>
         map_option (map (\<lambda>fields. parse_json (last fields)))
           (parseCSV (join [newline] (map rowToCSV (convertToCsvRows stringify msgs metadata)) @ [newline])) =
           Some (map Some msgs)"
proof -
  have field: "parseCSV (escapeCSVField v @ [newline]) = Some [[v]]"
    by (simp add: parseCSV_def parse_field_newline)
  have one_row: "parseCSV (rowToCSV row @ [newline]) = Some [row_fields row]"
    by (simp add: parseCSV_def parse_row_newline)
  have "convertToCsvRows stringify msgs metadata \<noteq> []"
    using assms(1) by (simp add: convertToCsvRows_def)
  then have batch:
    "parseCSV (join [newline] (map rowToCSV (convertToCsvRows stringify msgs metadata)) @ [newline]) =
       Some (map (\<lambda>m. [serverName metadata, serverId metadata, channelName metadata,
                        channelId metadata, stringify m]) msgs)"
    by (simp add: parseCSV_def parse_joined_rows row_fields_convert)
  have decoded: "map (\<lambda>fields. parse_json (last fields))
      (map (\<lambda>m. [serverName metadata, serverId metadata, channelName metadata,
                  channelId metadata, stringify m]) msgs) = map Some msgs"
    using assms(2) by (induction msgs) simp_all
  show ?thesis
    using field one_row batch decoded by (simp add: escapeCSVField_def)
qed

theorem escapeCSVField_round_trip_witness:
  "parseCSV (rowToCSV \<lparr>server_name = ''My, server'', server_id = ''11'', channel_name = ''general'',
                        channel_id = ''22'', data = sample_stringify sample_message\<rparr> @ [newline]) =
     Some [[''My, server'', ''11'', ''general'', ''22'', sample_stringify sample_message]] \<and>
   map_option (map (\<lambda>fields. sample_parse (last fields)))
     (parseCSV (join [newline]
        (map rowToCSV (convertToCsvRows sample_stringify [sample_message] sample_metadata)) @ [newline])) =
     Some [Some sample_message] \<and>
   escapeCSVField (content sample_message) =
     [dquote, CHR ''a'', comma, CHR '' '', dquote, dquote, CHR ''b'', dquote, dquote, newline,
      CHR ''c'', dquote]"
proof -
  have nonempty: "[sample_message] \<noteq> []"
    by simp
  have inverse: "\<forall>m \<in> set [sample_message]. sample_parse (sample_stringify m) = Some m"
    by (simp add: sample_parse_def)
  note fact = escapeCSVField_round_trip [OF nonempty inverse,
      of "content sample_message"
         "\<lparr>server_name = ''My, server'', server_id = ''11'', channel_name = ''general'',
           channel_id = ''22'', data = sample_stringify sample_message\<rparr>"
         sample_metadata]
  have escaped: "escapeCSVField (content sample_message) =
     [dquote, CHR ''a'', comma, CHR '' '', dquote, dquote, CHR ''b'', dquote, dquote, newline,
      CHR ''c'', dquote]"
    by (simp add: escapeCSVField_def sample_message_def comma_def dquote_def newline_def)
  from fact have one_row:
    "parseCSV (rowToCSV \<lparr>server_name = ''My, server'', server_id = ''11'', channel_name = ''general'',
                        channel_id = ''22'', data = sample_stringify sample_message\<rparr> @ [newline]) =
     Some [row_fields \<lparr>server_name = ''My, server'', server_id = ''11'', channel_name = ''general'',
                        channel_id = ''22'', data = sample_stringify sample_message\<rparr>]"
    by (elim conjE)
  from fact have decoded:
    "map_option (map (\<lambda>fields. sample_parse (last fields)))
       (parseCSV (join [newline]
          (map rowToCSV (convertToCsvRows sample_stringify [sample_message] sample_metadata)) @ [newline])) =
     Some (map Some [sample_message])"
    by (elim conjE)
  show ?thesis
    using one_row decoded escaped by (simp only: row_fields_def CSVRow.simps list.map simp_thms)
qed

section \<open>Properties of the retry loop and of a fetch\<close>

lemma retryLoop_value_from_fn:
  "retryLoop m d fn attempt lastError rl w = (Inr v, rl', w') \<Longrightarrow> \<exists>w1 w2. fn w1 = (Inr v, w2)"
proof (induction m d fn attempt lastError rl w rule: retryLoop.induct)
  case (1 m d fn attempt lastError rl w)
  show ?case
  proof (cases "attempt \<le> m")
    case False
    with "1.prems" show ?thesis
      by (simp add: retryLoop.simps)
  next
    case True
    obtain rl1 w1 where adm: "waitForRateLimit rl w = (rl1, w1)"
      by (cases "waitForRateLimit rl w")
    obtain r w2 where call: "fn w1 = (r, w2)"
      by (cases "fn w1")
    show ?thesis
    proof (cases r)
      case (Inr v')
      with True adm call "1.prems" show ?thesis
        by (auto simp: retryLoop.simps [of m d fn attempt])
    next
      case (Inl msg)
      show ?thesis
      proof (cases "str_includes msg ''429''")
        case False
        with True adm call Inl "1.prems" show ?thesis
          by (simp add: retryLoop.simps [of m d fn attempt])
      next
        case retry: True
        with True adm call Inl "1.prems" have
          "retryLoop m d fn (attempt + 1) (Some msg) rl1
             (if attempt < m then delay (d * 2 ^ (attempt - 1)) w2 else w2) = (Inr v, rl', w')"
          by (simp add: retryLoop.simps [of m d fn attempt])
        from "1.IH" [OF True adm [symmetric] call [symmetric] Inl retry this]
        show ?thesis .
      qed
    qed
  qed
qed

lemma fetchMessageBatch_page_from_feed:
  assumes "fetchMessageBatch fd c rl w = (Inr page, rl', w')"
  shows "\<exists>s response s'. fd (query_of c) s = (Resolved response, s') \<and> ok response \<and>
           json response = Inr page"
proof -
  obtain r rl1 w1 where run: "executeWithRetry (fetch_call fd (query_of c)) rl w = (r, rl1, w1)"
    by (cases "executeWithRetry (fetch_call fd (query_of c)) rl w")
  with assms obtain response where r: "r = Inr response"
    and good: "ok response" "json response = Inr page"
    by (auto simp: fetchMessageBatch_def split: sum.splits if_splits)
  from run r obtain wa wb where "fetch_call fd (query_of c) wa = (Inr response, wb)"
    unfolding executeWithRetry_def by (blast dest: retryLoop_value_from_fn)
  then have "\<exists>s'. fd (query_of c) (remote wa) = (Resolved response, s')"
    by (auto simp: fetch_call_def split: prod.splits http_result.splits)
  with good show ?thesis by blast
qed

section \<open>Properties of a pass through the loop\<close>

lemma scrapeStep_thrown:
  assumes "fetchMessageBatch (feed env) (before (paginationState st)) (limiter st) (world st) =
             (Inl msg, rl', w')"
  shows "scrapeStep env maxMessages startDate endDate st =
     Thrown msg (st\<lparr>limiter := rl', world := w',
                    fetches := fetches st @ [(before (paginationState st), Inl msg)]\<rparr>)"
  using assms by (simp add: scrapeStep_def)

lemma scrapeStep_empty:
  assumes "fetchMessageBatch (feed env) (before (paginationState st)) (limiter st) (world st) =
             (Inr [], rl', w')"
  shows "scrapeStep env maxMessages startDate endDate st =
     Break (st\<lparr>limiter := rl', world := w',
                 fetches := fetches st @ [(before (paginationState st), Inr [])],
                 paginationState := (paginationState st)\<lparr>hasMore := False\<rparr>\<rparr>)"
  using assms by (simp add: scrapeStep_def)

lemma scrapeStep_page:
  assumes "fetchMessageBatch (feed env) (before (paginationState st)) (limiter st) (world st) =
             (Inr batch, rl', w')"
    and "batch \<noteq> []"
  shows "scrapeStep env maxMessages startDate endDate st =
     (let all = allMessages st @ filterByTimestamp (new_Date env) batch startDate endDate;
          pag = (paginationState st)
                  \<lparr>totalFetched := totalFetched (paginationState st) + length batch,
                   before := Some (id_msg (last batch)),
                   lastMessageId := Some (id_msg (last batch))\<rparr>;
          st1 = st\<lparr>limiter := rl', world := w',
                    fetches := fetches st @ [(before (paginationState st), Inr batch)]\<rparr>
      in if maxMessages > 0 \<and> int (length all) \<ge> maxMessages
         then Break (st1\<lparr>allMessages := take (nat maxMessages) all,
                          paginationState := pag\<lparr>hasMore := False\<rparr>\<rparr>)
         else Continue (st1\<lparr>allMessages := all, paginationState := pag,
                             world := (if hasMore (paginationState st)
                                       then delay PAGINATION_DELAY_MS w' else w')\<rparr>))"
  using assms by (simp add: scrapeStep_def Let_def)

lemma filterByTimestamp_valid_bounds:
  assumes "new_Date' (timestamp m) = Some t"
  shows "m \<in> set (filterByTimestamp new_Date' page (map_option Some lo) (map_option Some hi)) \<longleftrightarrow>
     m \<in> set page \<and> (case lo of None \<Rightarrow> True | Some s \<Rightarrow> s \<le> t) \<and>
     (case hi of None \<Rightarrow> True | Some e \<Rightarrow> t \<le> e)"
  using assms by (cases lo; cases hi) (auto simp: filterByTimestamp_def date_less_def)

text \<open>
  A date that does not parse compares false with everything: a message with such a
  timestamp is kept whatever the bounds are.
\<close>

lemma filterByTimestamp_invalid_date_kept:
  assumes "new_Date' (timestamp m) = None"
  shows "m \<in> set (filterByTimestamp new_Date' page startDate endDate) \<longleftrightarrow> m \<in> set page"
  using assms
  by (cases startDate; cases endDate)
     (auto simp: filterByTimestamp_def date_less_def split: option.splits)

lemma sample_fetch_first:
  "fetchMessageBatch sample_feed None new_RateLimiter sample_world =
   (Inr (take 2 sample_channel), new_RateLimiter\<lparr>requestTimes := [0]\<rparr>, sample_world)"
  by code_simp

text \<open>
  C4. A message whose timestamp is the time \<open>t\<close> is kept by the filter exactly when it
  lies between the bounds, both inclusive, a bound that is not set imposing nothing.
  Whatever the filter keeps, a page that is not empty moves the cursor to the id of the
  page's last message and adds the size of the whole page to \<open>totalFetched\<close>; only the
  kept part of the page joins the messages.
\<close>

theorem filterByTimestamp_inclusive_range:
  assumes "new_Date env (timestamp m) = Some t"
    and "fetchMessageBatch (feed env) (before (paginationState st)) (limiter st) (world st) =
           (Inr batch, rl', w')"
    and "batch \<noteq> []"
  shows "(m \<in> set (filterByTimestamp (new_Date env) page (map_option Some lo) (map_option Some hi)) \<longleftrightarrow>
            m \<in> set page \<and> (case lo of None \<Rightarrow> True | Some s \<Rightarrow> s \<le> t) \<and>
            (case hi of None \<Rightarrow> True | Some e \<Rightarrow> t \<le> e)) \<and>
         before (paginationState (state_of (scrapeStep env maxMessages startDate endDate st))) =
           Some (id_msg (last batch)) \<and>
         totalFetched (paginationState (state_of (scrapeStep env maxMessages startDate endDate st))) =
           totalFetched (paginationState st) + length batch \<and>
         allMessages (state_of (scrapeStep env maxMessages startDate endDate st)) =
           (if maxMessages > 0 \<and>
               int (length (allMessages st @ filterByTimestamp (new_Date env) batch startDate endDate))
                 \<ge> maxMessages
            then take (nat maxMessages)
                   (allMessages st @ filterByTimestamp (new_Date env) batch startDate endDate)
            else allMessages st @ filterByTimestamp (new_Date env) batch startDate endDate)"
  using filterByTimestamp_valid_bounds [of "new_Date env" m t page lo hi, OF assms(1)]
    scrapeStep_page [OF assms(2,3)]
  by (simp add: Let_def)

theorem filterByTimestamp_inclusive_range_witness:
  "new_Date sample_env (timestamp (sample_channel ! 1)) = Some 1769644800000 \<and>
   sample_channel ! 1 \<in> set (filterByTimestamp (new_Date sample_env) sample_channel
                                (Some (Some 1769644800000)) (Some (Some 1769644800000))) \<and>
   before (paginationState (state_of (scrapeStep sample_env 0 (Some (Some 1769731200001)) None
      (initial_state new_RateLimiter sample_world)))) = Some ''20'' \<and>
   totalFetched (paginationState (state_of (scrapeStep sample_env 0 (Some (Some 1769731200001)) None
      (initial_state new_RateLimiter sample_world)))) = 2 \<and>
   allMessages (state_of (scrapeStep sample_env 0 (Some (Some 1769731200001)) None
      (initial_state new_RateLimiter sample_world))) = []"
proof -
  let ?st = "initial_state new_RateLimiter sample_world :: unit scrape_state"
  have parsed: "new_Date sample_env (timestamp (sample_channel ! 1)) = Some 1769644800000"
    by (simp add: sample_env_def sample_channel_def sample_new_Date_def)
  have fetched: "fetchMessageBatch (feed sample_env) (before (paginationState ?st)) (limiter ?st)
      (world ?st) = (Inr (take 2 sample_channel), new_RateLimiter\<lparr>requestTimes := [0]\<rparr>, sample_world)"
    using sample_fetch_first by (simp add: sample_env_def initial_state_def)
  have nonempty: "take 2 sample_channel \<noteq> []"
    by (simp add: sample_channel_def)
  note fact = filterByTimestamp_inclusive_range [OF parsed fetched nonempty,
      of sample_channel "Some 1769644800000" "Some 1769644800000" 0
         "Some (Some 1769731200001)" None]
  have dropped: "filterByTimestamp (new_Date sample_env) (take 2 sample_channel)
      (Some (Some 1769731200001)) None = []"
    by (simp add: filterByTimestamp_def date_less_def sample_env_def sample_channel_def
        sample_new_Date_def)
  have member: "sample_channel ! 1 \<in> set sample_channel"
    by (simp add: sample_channel_def)
  have last_id: "id_msg (last (take 2 sample_channel)) = ''20''"
    by (simp add: sample_channel_def)
  have size: "length sample_channel = 3"
    by (simp add: sample_channel_def)
  show ?thesis
    using fact parsed dropped member last_id size by (simp add: initial_state_def)
qed

section \<open>Properties of the loop\<close>

lemma scrapeStep_cases:
  obtains
    (thrown) msg rl' w' where
      "fetchMessageBatch (feed env) (before (paginationState st)) (limiter st) (world st) =
         (Inl msg, rl', w')"
      "scrapeStep env maxMessages startDate endDate st =
         Thrown msg (st\<lparr>limiter := rl', world := w',
                        fetches := fetches st @ [(before (paginationState st), Inl msg)]\<rparr>)"
  | (empty) rl' w' where
      "fetchMessageBatch (feed env) (before (paginationState st)) (limiter st) (world st) =
         (Inr [], rl', w')"
      "scrapeStep env maxMessages startDate endDate st =
         Break (st\<lparr>limiter := rl', world := w',
                     fetches := fetches st @ [(before (paginationState st), Inr [])],
                     paginationState := (paginationState st)\<lparr>hasMore := False\<rparr>\<rparr>)"
  | (capped) batch rl' w' where
      "fetchMessageBatch (feed env) (before (paginationState st)) (limiter st) (world st) =
         (Inr batch, rl', w')"
      "batch \<noteq> []"
      "maxMessages > 0"
      "int (length (allMessages st @ filterByTimestamp (new_Date env) batch startDate endDate))
         \<ge> maxMessages"
      "scrapeStep env maxMessages startDate endDate st =
         Break (st\<lparr>limiter := rl', world := w',
                     fetches := fetches st @ [(before (paginationState st), Inr batch)],
                     allMessages := take (nat maxMessages)
                       (allMessages st @ filterByTimestamp (new_Date env) batch startDate endDate),
                     paginationState := (paginationState st)
                       \<lparr>totalFetched := totalFetched (paginationState st) + length batch,
                        before := Some (id_msg (last batch)),
                        lastMessageId := Some (id_msg (last batch)),
                        hasMore := False\<rparr>\<rparr>)"
  | (continue) batch rl' w' where
      "fetchMessageBatch (feed env) (before (paginationState st)) (limiter st) (world st) =
         (Inr batch, rl', w')"
      "batch \<noteq> []"
      "\<not> (maxMessages > 0 \<and>
          int (length (allMessages st @ filterByTimestamp (new_Date env) batch startDate endDate))
            \<ge> maxMessages)"
      "scrapeStep env maxMessages startDate endDate st =
         Continue (st\<lparr>limiter := rl',
                        fetches := fetches st @ [(before (paginationState st), Inr batch)],
                        allMessages :=
                          allMessages st @ filterByTimestamp (new_Date env) batch startDate endDate,
                        paginationState := (paginationState st)
                          \<lparr>totalFetched := totalFetched (paginationState st) + length batch,
                           before := Some (id_msg (last batch)),
                           lastMessageId := Some (id_msg (last batch))\<rparr>,
                        world := (if hasMore (paginationState st)
                                  then delay PAGINATION_DELAY_MS w' else w')\<rparr>)"
proof -
  obtain r rl' w' where fetched:
    "fetchMessageBatch (feed env) (before (paginationState st)) (limiter st) (world st) = (r, rl', w')"
    by (cases "fetchMessageBatch (feed env) (before (paginationState st)) (limiter st) (world st)")
  show thesis
  proof (cases r)
    case (Inl msg)
    with fetched show thesis
      by (intro thrown [of msg rl' w']) (simp_all add: scrapeStep_def)
  next
    case (Inr batch)
    show thesis
    proof (cases "batch = []")
      case True
      with fetched Inr show thesis
        by (intro empty [of rl' w']) (simp_all add: scrapeStep_def)
    next
      case False
      show thesis
      proof (cases "maxMessages > 0 \<and>
          int (length (allMessages st @ filterByTimestamp (new_Date env) batch startDate endDate))
            \<ge> maxMessages")
        case True
        with fetched Inr False show thesis
          by (intro capped [of batch rl' w']) (simp_all add: scrapeStep_def Let_def)
      next
        case no_cap: False
        with fetched Inr False show thesis
          by (intro continue [of batch rl' w']) (simp_all add: scrapeStep_def Let_def)
      qed
    qed
  qed
qed

text \<open>
  A rule for the loop: what holds at the head of every pass (\<open>I\<close>) gives at each way out
  what holds of the exit (\<open>Q\<close>).
\<close>

lemma scrapeLoop_rule:
  assumes "scrapeLoop n env maxMessages startDate endDate st = Some (thrown, st')"
    and "I st"
    and "\<And>s s1. I s \<Longrightarrow> hasMore (paginationState s) \<Longrightarrow>
           scrapeStep env maxMessages startDate endDate s = Continue s1 \<Longrightarrow> I s1"
    and "\<And>s msg s1. I s \<Longrightarrow> hasMore (paginationState s) \<Longrightarrow>
           scrapeStep env maxMessages startDate endDate s = Thrown msg s1 \<Longrightarrow> Q (Some msg) s1"
    and "\<And>s s1. I s \<Longrightarrow> hasMore (paginationState s) \<Longrightarrow>
           scrapeStep env maxMessages startDate endDate s = Break s1 \<Longrightarrow> Q None s1"
    and "\<And>s. I s \<Longrightarrow> \<not> hasMore (paginationState s) \<Longrightarrow> Q None s"
  shows "Q thrown st'"
  using assms(1,2)
proof (induction n arbitrary: st)
  case 0
  then show ?case
    using assms(6) by (auto split: if_splits)
next
  case (Suc n)
  show ?case
  proof (cases "hasMore (paginationState st)")
    case False
    with Suc.prems show ?thesis
      using assms(6) by auto
  next
    case True
    show ?thesis
    proof (cases "scrapeStep env maxMessages startDate endDate st")
      case (Thrown msg s1)
      with True Suc.prems show ?thesis
        using assms(4) by auto
    next
      case (Break s1)
      with True Suc.prems show ?thesis
        using assms(5) by auto
    next
      case (Continue s1)
      with True Suc.prems have "scrapeLoop n env maxMessages startDate endDate s1 = Some (thrown, st')"
        by simp
      moreover have "I s1"
        using assms(3) Suc.prems(2) True Continue by blast
      ultimately show ?thesis
        by (rule Suc.IH)
    qed
  qed
qed

lemma sample_run:
  "scrapeLoop 3 sample_env 0 None None (initial_state new_RateLimiter sample_world) =
   Some (None, sample_final)"
  by code_simp

text \<open>
  C2. When a fetch returns a page of size 0, the loop ends in that pass whatever number
  of passes was still allowed: \<open>hasMore\<close> is false, and the state is the one the fetch
  left, with nothing requested after it. In every run that ends, only the last fetch can
  have returned an empty page; a run that ends without an exception ends with
  \<open>hasMore\<close> false; and when it ends without an exception and short of the cap, its last
  fetch returned an empty page.
\<close>

theorem empty_page_ends_run:
  assumes "hasMore (paginationState st)"
  shows "(fetchMessageBatch (feed env) (before (paginationState st)) (limiter st) (world st) =
            (Inr [], rl', w') \<longrightarrow>
          scrapeLoop (Suc n) env maxMessages startDate endDate st =
            Some (None, st\<lparr>limiter := rl', world := w',
                           fetches := fetches st @ [(before (paginationState st), Inr [])],
                           paginationState := (paginationState st)\<lparr>hasMore := False\<rparr>\<rparr>)) \<and>
         (scrapeLoop k env maxMessages startDate endDate st = Some (thrown, st') \<longrightarrow>
          (\<exists>new. fetches st' = fetches st @ new \<and> list_all nonempty_page (butlast new)) \<and>
          (thrown = None \<longrightarrow> \<not> hasMore (paginationState st')) \<and>
          (thrown = None \<and> \<not> (maxMessages > 0 \<and> int (length (allMessages st')) \<ge> maxMessages) \<longrightarrow>
           fetches st' \<noteq> [] \<and> snd (last (fetches st')) = Inr []))"
proof (intro conjI impI)
  assume "fetchMessageBatch (feed env) (before (paginationState st)) (limiter st) (world st) =
            (Inr [], rl', w')"
  then show "scrapeLoop (Suc n) env maxMessages startDate endDate st =
            Some (None, st\<lparr>limiter := rl', world := w',
                           fetches := fetches st @ [(before (paginationState st), Inr [])],
                           paginationState := (paginationState st)\<lparr>hasMore := False\<rparr>\<rparr>)"
    using assms by (simp add: scrapeStep_empty)
next
  assume run: "scrapeLoop k env maxMessages startDate endDate st = Some (thrown, st')"
  let ?I = "\<lambda>s. hasMore (paginationState s) \<and>
              (\<exists>new. fetches s = fetches st @ new \<and> list_all nonempty_page new)"
  let ?Q = "\<lambda>(t :: string option) s.
              \<exists>new. fetches s = fetches st @ new \<and> list_all nonempty_page (butlast new)"
  have start: "?I st"
    using assms by simp
  show "\<exists>new. fetches st' = fetches st @ new \<and> list_all nonempty_page (butlast new)"
  proof (rule scrapeLoop_rule [where I = ?I and Q = ?Q, OF run start])
    fix s s1
    assume s: "?I s" and step: "scrapeStep env maxMessages startDate endDate s = Continue s1"
    from s obtain new where new: "fetches s = fetches st @ new" "list_all nonempty_page new"
      by blast
    show "?I s1"
    proof (cases rule: scrapeStep_cases [of env s maxMessages startDate endDate])
      case (continue batch rl1 w1)
      with step s new show ?thesis
        by (auto simp: nonempty_page_def
            intro!: exI [of _ "new @ [(before (paginationState s), Inr batch)]"])
    qed (use step in simp_all)
  next
    fix s msg s1
    assume s: "?I s" and step: "scrapeStep env maxMessages startDate endDate s = Thrown msg s1"
    from s obtain new where new: "fetches s = fetches st @ new" "list_all nonempty_page new"
      by blast
    show "?Q (Some msg) s1"
    proof (cases rule: scrapeStep_cases [of env s maxMessages startDate endDate])
      case (thrown msg' rl1 w1)
      with step new show ?thesis
        by (auto intro!: exI [of _ "new @ [(before (paginationState s), Inl msg')]"])
    qed (use step in simp_all)
  next
    fix s s1
    assume s: "?I s" and step: "scrapeStep env maxMessages startDate endDate s = Break s1"
    from s obtain new where new: "fetches s = fetches st @ new" "list_all nonempty_page new"
      by blast
    show "?Q None s1"
    proof (cases rule: scrapeStep_cases [of env s maxMessages startDate endDate])
      case (empty rl1 w1)
      with step new show ?thesis
        by (auto intro!: exI [of _ "new @ [(before (paginationState s), Inr [])]"])
    next
      case (capped batch rl1 w1)
      with step new show ?thesis
        by (auto intro!: exI [of _ "new @ [(before (paginationState s), Inr batch)]"])
    qed (use step in simp_all)
  next
    fix s
    assume "?I s" and "\<not> hasMore (paginationState s)"
    then show "?Q None s"
      by simp
  qed
next
  assume run: "scrapeLoop k env maxMessages startDate endDate st = Some (thrown, st')"
    and normal: "thrown = None"
  let ?I = "\<lambda>s. hasMore (paginationState s)"
  let ?Q = "\<lambda>(t :: string option) s. t = None \<longrightarrow> \<not> hasMore (paginationState s)"
  have "?Q thrown st'"
  proof (rule scrapeLoop_rule [where I = ?I and Q = ?Q, OF run assms])
    fix s s1
    assume "?I s" and step: "scrapeStep env maxMessages startDate endDate s = Continue s1"
    then show "?I s1"
      by (cases rule: scrapeStep_cases [of env s maxMessages startDate endDate]) auto
  next
    fix s s1
    assume "?I s" and step: "scrapeStep env maxMessages startDate endDate s = Break s1"
    then show "?Q None s1"
      by (cases rule: scrapeStep_cases [of env s maxMessages startDate endDate]) auto
  qed simp_all
  with normal show "\<not> hasMore (paginationState st')"
    by simp
next
  assume run: "scrapeLoop k env maxMessages startDate endDate st = Some (thrown, st')"
    and normal: "thrown = None \<and> \<not> (maxMessages > 0 \<and> int (length (allMessages st')) \<ge> maxMessages)"
  let ?I = "\<lambda>s. hasMore (paginationState s)"
  let ?Q = "\<lambda>(t :: string option) s.
              t = None \<and> \<not> (maxMessages > 0 \<and> int (length (allMessages s)) \<ge> maxMessages) \<longrightarrow>
              fetches s \<noteq> [] \<and> snd (last (fetches s)) = Inr []"
  have "?Q thrown st'"
  proof (rule scrapeLoop_rule [where I = ?I and Q = ?Q, OF run assms])
    fix s s1
    assume "?I s" and step: "scrapeStep env maxMessages startDate endDate s = Continue s1"
    then show "?I s1"
      by (cases rule: scrapeStep_cases [of env s maxMessages startDate endDate]) auto
  next
    fix s s1
    assume "?I s" and step: "scrapeStep env maxMessages startDate endDate s = Break s1"
    then show "?Q None s1"
      by (cases rule: scrapeStep_cases [of env s maxMessages startDate endDate]) auto
  qed simp_all
  with normal show "fetches st' \<noteq> []" and "snd (last (fetches st')) = Inr []"
    by simp_all
qed

lemma sample_fetch_last:
  "fetchMessageBatch sample_feed (Some ''10'') new_RateLimiter sample_world =
   (Inr [], new_RateLimiter\<lparr>requestTimes := [0]\<rparr>, sample_world)"
  by code_simp

theorem empty_page_ends_run_witness:
  "hasMore (paginationState (initial_state new_RateLimiter sample_world)) \<and>
   scrapeLoop 3 sample_env 0 None None (initial_state new_RateLimiter sample_world) =
     Some (None, sample_final) \<and>
   snd (last (fetches sample_final)) = Inr [] \<and>
   \<not> hasMore (paginationState sample_final) \<and>
   list_all nonempty_page (butlast (fetches sample_final)) \<and>
   fetchMessageBatch sample_feed (Some ''10'') new_RateLimiter sample_world =
     (Inr [], new_RateLimiter\<lparr>requestTimes := [0]\<rparr>, sample_world) \<and>
   scrapeLoop (Suc 5) sample_env 0 None None
     ((initial_state new_RateLimiter sample_world)
        \<lparr>paginationState := \<lparr>before = Some ''10'', after = None, hasMore = True,
                              totalFetched = 3, lastMessageId = Some ''10''\<rparr>\<rparr>) =
     Some (None,
       \<lparr>allMessages = [],
        paginationState = \<lparr>before = Some ''10'', after = None, hasMore = False,
                           totalFetched = 3, lastMessageId = Some ''10''\<rparr>,
        limiter = new_RateLimiter\<lparr>requestTimes := [0]\<rparr>, world = sample_world,
        fetches = [(Some ''10'', Inr [])]\<rparr>)"
proof -
  let ?st = "initial_state new_RateLimiter sample_world :: unit scrape_state"
  let ?st2 = "?st\<lparr>paginationState := \<lparr>before = Some ''10'', after = None, hasMore = True,
                                        totalFetched = 3, lastMessageId = Some ''10''\<rparr>\<rparr>"
  have running: "hasMore (paginationState ?st)"
    by (simp add: initial_state_def)
  have short: "\<not> ((0::int) > 0 \<and> int (length (allMessages sample_final)) \<ge> 0)"
    by simp
  from empty_page_ends_run [OF running, of sample_env _ _ _ 0 None None 3 None sample_final]
    sample_run short
  have "snd (last (fetches sample_final)) = Inr []"
    and "\<not> hasMore (paginationState sample_final)"
    and "\<exists>new. fetches sample_final = fetches ?st @ new \<and> list_all nonempty_page (butlast new)"
    by simp_all
  then have whole: "snd (last (fetches sample_final)) = Inr [] \<and>
      \<not> hasMore (paginationState sample_final) \<and>
      list_all nonempty_page (butlast (fetches sample_final))"
    by (simp add: initial_state_def)
  have running2: "hasMore (paginationState ?st2)"
    by simp
  have fetched: "fetchMessageBatch (feed sample_env) (before (paginationState ?st2)) (limiter ?st2)
      (world ?st2) = (Inr [], new_RateLimiter\<lparr>requestTimes := [0]\<rparr>, sample_world)"
    using sample_fetch_last by (simp add: sample_env_def initial_state_def)
  from empty_page_ends_run [OF running2, of sample_env "new_RateLimiter\<lparr>requestTimes := [0]\<rparr>"
      sample_world 5 0 None None] fetched
  have "scrapeLoop (Suc 5) sample_env 0 None None ?st2 =
      Some (None, ?st2\<lparr>limiter := new_RateLimiter\<lparr>requestTimes := [0]\<rparr>, world := sample_world,
                        fetches := fetches ?st2 @ [(before (paginationState ?st2), Inr [])],
                        paginationState := (paginationState ?st2)\<lparr>hasMore := False\<rparr>\<rparr>)"
    by blast
  then show ?thesis
    using running sample_run whole sample_fetch_last by (simp add: initial_state_def)
qed

section \<open>What a run keeps\<close>

lemma filterByTimestamp_Nil [simp]: "filterByTimestamp new_Date' [] startDate endDate = []"
  by (simp add: filterByTimestamp_def)

lemma kept_of_Nil [simp]: "kept_of new_Date' startDate endDate [] = []"
  by (simp add: kept_of_def)

lemma kept_of_snoc:
  "kept_of new_Date' startDate endDate (fs @ [f]) =
   kept_of new_Date' startDate endDate fs @ filterByTimestamp new_Date' (page_of f) startDate endDate"
  by (simp add: kept_of_def)

lemma scrapeLoop_kept:
  assumes "scrapeLoop n env maxMessages startDate endDate st = Some (thrown, st')"
    and "allMessages st = kept_of (new_Date env) startDate endDate (fetches st)"
    and "maxMessages > 0 \<longrightarrow> int (length (allMessages st)) < maxMessages"
  shows "allMessages st' =
           (if maxMessages > 0
            then take (nat maxMessages) (kept_of (new_Date env) startDate endDate (fetches st'))
            else kept_of (new_Date env) startDate endDate (fetches st')) \<and>
         (thrown \<noteq> None \<longrightarrow> allMessages st' = kept_of (new_Date env) startDate endDate (fetches st'))"
proof -
  let ?kept = "kept_of (new_Date env) startDate endDate"
  let ?I = "\<lambda>s. allMessages s = ?kept (fetches s) \<and>
              (maxMessages > 0 \<longrightarrow> int (length (allMessages s)) < maxMessages)"
  let ?Q = "\<lambda>(t :: string option) s.
              allMessages s = (if maxMessages > 0 then take (nat maxMessages) (?kept (fetches s))
                               else ?kept (fetches s)) \<and>
              (t \<noteq> None \<longrightarrow> allMessages s = ?kept (fetches s))"
  have start: "?I st"
    using assms(2,3) by simp
  show ?thesis
  proof (rule scrapeLoop_rule [where I = ?I and Q = ?Q, OF assms(1) start])
    fix s s1
    assume s: "?I s" and step: "scrapeStep env maxMessages startDate endDate s = Continue s1"
    show "?I s1"
    proof (cases rule: scrapeStep_cases [of env s maxMessages startDate endDate])
      case (continue batch rl1 w1)
      with step s show ?thesis
        by (auto simp: kept_of_snoc page_of_def)
    qed (use step in simp_all)
  next
    fix s msg s1
    assume s: "?I s" and step: "scrapeStep env maxMessages startDate endDate s = Thrown msg s1"
    show "?Q (Some msg) s1"
    proof (cases rule: scrapeStep_cases [of env s maxMessages startDate endDate])
      case (thrown msg' rl1 w1)
      with step s show ?thesis
        by (auto simp: kept_of_snoc page_of_def)
    qed (use step in simp_all)
  next
    fix s s1
    assume s: "?I s" and step: "scrapeStep env maxMessages startDate endDate s = Break s1"
    show "?Q None s1"
    proof (cases rule: scrapeStep_cases [of env s maxMessages startDate endDate])
      case (empty rl1 w1)
      with step s show ?thesis
        by (auto simp: kept_of_snoc page_of_def)
    next
      case (capped batch rl1 w1)
      with step s show ?thesis
        by (auto simp: kept_of_snoc page_of_def)
    qed (use step in simp_all)
  next
    fix s
    assume "?I s" and "\<not> hasMore (paginationState s)"
    then show "?Q None s"
      by auto
  qed
qed

lemma scrape_try_kept:
  assumes "scrape_try bound env maxMessages timestampStart timestampEnd rl w = Some (thrown, errs, st)"
  shows "allMessages st =
           (if maxMessages > 0
            then take (nat maxMessages)
                   (kept_of (new_Date env) (parse_bound (new_Date env) timestampStart)
                      (parse_bound (new_Date env) timestampEnd) (fetches st))
            else kept_of (new_Date env) (parse_bound (new_Date env) timestampStart)
                   (parse_bound (new_Date env) timestampEnd) (fetches st)) \<and>
         (thrown \<noteq> None \<longrightarrow>
            allMessages st =
              kept_of (new_Date env) (parse_bound (new_Date env) timestampStart)
                (parse_bound (new_Date env) timestampEnd) (fetches st))"
proof -
  obtain a w1 where auth: "setupAuthentication env w = (a, w1)"
    by (cases "setupAuthentication env w")
  obtain verrs w2 where val: "fullValidation env w1 = (verrs, w2)"
    by (cases "fullValidation env w1")
  show ?thesis
  proof (cases "a = None \<and> verrs = []")
    case False
    with assms auth val have "st = initial_state rl w1 \<or> st = initial_state rl w2"
      by (auto simp: scrape_try_def split: option.splits if_splits)
    then show ?thesis
      by (auto simp: initial_state_def)
  next
    case True
    with assms auth val have
      "scrapeLoop bound env maxMessages (parse_bound (new_Date env) timestampStart)
         (parse_bound (new_Date env) timestampEnd) (initial_state rl w2) = Some (thrown, st)"
      by (auto simp: scrape_try_def split: option.splits)
    then show ?thesis
      by (rule scrapeLoop_kept) (simp_all add: initial_state_def)
  qed
qed

lemma failing_run:
  "scrapeLoop 5 failing_env 0 None None (initial_state new_RateLimiter sample_world) =
   Some (Some ''API returned status 500'', failing_final)"
  by code_simp

text \<open>
  C9. When the run is cut short by an error that nothing recovers from (authentication
  throws, validation fails, or a fetch throws out of the loop), \<open>scrapeChannel\<close> still
  returns a result: its messages are the ones gathered before the failure, which are what
  the filter kept of the pages fetched so far, \<open>totalScraped\<close> is their number, and
  \<open>errors\<close> ends with the message of the error, so it is not empty.
\<close>

theorem scrapeChannel_partial_results:
  assumes "Date_now w = (startTime, w0)"
    and "(\<exists>w1. setupAuthentication env w0 = (Some msg, w1) \<and> errs = [] \<and> st = initial_state rl w1) \<or>
         (\<exists>w1 w2. setupAuthentication env w0 = (None, w1) \<and> fullValidation env w1 = (errs, w2) \<and>
            errs \<noteq> [] \<and> msg = ''Validation failed: '' @ join ''; '' errs \<and>
            st = initial_state rl w2) \<or>
         (\<exists>w1 w2. setupAuthentication env w0 = (None, w1) \<and> fullValidation env w1 = ([], w2) \<and>
            errs = [] \<and>
            scrapeLoop bound env maxMessages (parse_bound (new_Date env) timestampStart)
              (parse_bound (new_Date env) timestampEnd) (initial_state rl w2) = Some (Some msg, st))"
  shows "\<exists>r st'. scrapeChannel bound env serverId' channelId' maxMessages timestampStart timestampEnd
                   rl w = Some (r, st') \<and>
           fetches st' = fetches st \<and>
           messages r = allMessages st \<and>
           messages r = kept_of (new_Date env) (parse_bound (new_Date env) timestampStart)
                          (parse_bound (new_Date env) timestampEnd) (fetches st) \<and>
           totalScraped r = length (messages r) \<and>
           errors r = errs @ [msg] \<and>
           errors r \<noteq> []"
proof -
  from assms(2) have tried:
    "scrape_try bound env maxMessages timestampStart timestampEnd rl w0 = Some (Some msg, errs, st)"
    by (auto simp: scrape_try_def)
  have kept:
    "allMessages st = kept_of (new_Date env) (parse_bound (new_Date env) timestampStart)
                        (parse_bound (new_Date env) timestampEnd) (fetches st)"
    using scrape_try_kept [OF tried, THEN conjunct2] by simp
  obtain logged w3 where t1: "Date_now (world st) = (logged, w3)"
    by (cases "Date_now (world st)")
  obtain finished w4 where t2: "Date_now w3 = (finished, w4)"
    by (cases "Date_now w3")
  show ?thesis
    using assms(1) tried t1 t2 kept by (simp add: scrapeChannel_def)
qed

theorem scrapeChannel_partial_results_witness:
  "map_option (messages \<circ> fst)
     (scrapeChannel 5 failing_env ''srv'' ''chan'' 0 None None new_RateLimiter sample_world) =
     Some (take 2 sample_channel) \<and>
   map_option (totalScraped \<circ> fst)
     (scrapeChannel 5 failing_env ''srv'' ''chan'' 0 None None new_RateLimiter sample_world) = Some 2 \<and>
   map_option (errors \<circ> fst)
     (scrapeChannel 5 failing_env ''srv'' ''chan'' 0 None None new_RateLimiter sample_world) =
     Some [''API returned status 500'']"
proof -
  have clock0: "Date_now sample_world = (0, sample_world)"
    by (simp add: Date_now_def sample_world_def)
  have authd: "setupAuthentication failing_env sample_world = (None, sample_world)"
    by (simp add: setupAuthentication_def failing_env_def sample_env_def sample_world_def)
  have valid: "fullValidation failing_env sample_world = ([], sample_world)"
    by (simp add: fullValidation_def validateSession_def validateChannelAccess_def ok_def
        failing_env_def sample_env_def sample_world_def)
  have cause:
    "(\<exists>w1. setupAuthentication failing_env sample_world = (Some ''API returned status 500'', w1) \<and>
        [] = [] \<and> failing_final = initial_state new_RateLimiter w1) \<or>
     (\<exists>w1 w2. setupAuthentication failing_env sample_world = (None, w1) \<and>
        fullValidation failing_env w1 = ([], w2) \<and> [] \<noteq> ([] :: string list) \<and>
        ''API returned status 500'' = ''Validation failed: '' @ join ''; '' [] \<and>
        failing_final = initial_state new_RateLimiter w2) \<or>
     (\<exists>w1 w2. setupAuthentication failing_env sample_world = (None, w1) \<and>
        fullValidation failing_env w1 = ([], w2) \<and> [] = ([] :: string list) \<and>
        scrapeLoop 5 failing_env 0 (parse_bound (new_Date failing_env) None)
          (parse_bound (new_Date failing_env) None) (initial_state new_RateLimiter w2) =
          Some (Some ''API returned status 500'', failing_final))"
    using authd valid failing_run by (simp add: parse_bound_def)
  from scrapeChannel_partial_results [OF clock0 cause, of "''srv''" "''chan''"]
  obtain r st' where
    "scrapeChannel 5 failing_env ''srv'' ''chan'' 0 None None new_RateLimiter sample_world = Some (r, st')"
    "messages r = allMessages failing_final" "totalScraped r = length (messages r)"
    "errors r = [] @ [''API returned status 500'']"
    by blast
  then show ?thesis
    by (simp add: failing_final_def sample_channel_def)
qed

section \<open>Properties of the append\<close>










section \<open>The cap on the number of messages\<close>

lemma scrapeLoop_grows:
  assumes "scrapeLoop n env 0 startDate endDate st = Some (thrown, st')"
  shows "prefix (allMessages st) (allMessages st') \<and> prefix (fetches st) (fetches st')"
proof -
  let ?I = "\<lambda>s. prefix (allMessages st) (allMessages s) \<and> prefix (fetches st) (fetches s)"
  let ?Q = "\<lambda>(t :: string option) s.
              prefix (allMessages st) (allMessages s) \<and> prefix (fetches st) (fetches s)"
  have start: "?I st"
    by simp
  show ?thesis
  proof (rule scrapeLoop_rule [where I = ?I and Q = ?Q, OF assms start])
    fix s s1
    assume s: "?I s" and step: "scrapeStep env 0 startDate endDate s = Continue s1"
    show "?I s1"
    proof (cases rule: scrapeStep_cases [of env s 0 startDate endDate])
      case (continue batch rl1 w1)
      with step s show ?thesis
        by (auto intro: prefix_order.trans)
    qed (use step in simp_all)
  next
    fix s msg s1
    assume s: "?I s" and step: "scrapeStep env 0 startDate endDate s = Thrown msg s1"
    show "?Q (Some msg) s1"
    proof (cases rule: scrapeStep_cases [of env s 0 startDate endDate])
      case (thrown msg' rl1 w1)
      with step s show ?thesis
        by (auto intro: prefix_order.trans)
    qed (use step in simp_all)
  next
    fix s s1
    assume s: "?I s" and step: "scrapeStep env 0 startDate endDate s = Break s1"
    show "?Q None s1"
    proof (cases rule: scrapeStep_cases [of env s 0 startDate endDate])
      case (empty rl1 w1)
      with step s show ?thesis
        by (auto intro: prefix_order.trans)
    qed (use step in simp_all)
  qed simp
qed

lemma take_of_prefix:
  assumes "prefix xs ys" and "k \<le> length xs"
  shows "take k ys = take k xs"
  using assms by (auto simp: prefix_def)

lemma capped_vs_unlimited:
  assumes "maxMessages > 0"
    and "scrapeLoop n env 0 startDate endDate st = Some (thrownU, stU)"
    and "int (length (allMessages st)) < maxMessages"
  shows "\<exists>thrownK stK.
           scrapeLoop n env maxMessages startDate endDate st = Some (thrownK, stK) \<and>
           allMessages stK = take (nat maxMessages) (allMessages stU) \<and>
           prefix (fetches stK) (fetches stU)"
  using assms(2,3)
proof (induction n arbitrary: st)
  case 0
  then show ?case
    by (auto split: if_splits)
next
  case (Suc n)
  show ?case
  proof (cases "hasMore (paginationState st)")
    case False
    with Suc.prems show ?thesis
      by auto
  next
    case True
    show ?thesis
    proof (cases rule: scrapeStep_cases [of env st 0 startDate endDate])
      case (thrown msg rl1 w1)
      from thrown(1) have "scrapeStep env maxMessages startDate endDate st =
          Thrown msg (st\<lparr>limiter := rl1, world := w1,
                         fetches := fetches st @ [(before (paginationState st), Inl msg)]\<rparr>)"
        by (rule scrapeStep_thrown)
      with thrown(2) True Suc.prems show ?thesis
        by auto
    next
      case (empty rl1 w1)
      from empty(1) have "scrapeStep env maxMessages startDate endDate st =
          Break (st\<lparr>limiter := rl1, world := w1,
                      fetches := fetches st @ [(before (paginationState st), Inr [])],
                      paginationState := (paginationState st)\<lparr>hasMore := False\<rparr>\<rparr>)"
        by (rule scrapeStep_empty)
      with empty(2) True Suc.prems show ?thesis
        by auto
    next
      case (capped batch rl1 w1)
      then show ?thesis
        by simp
    next
      case (continue batch rl1 w1)
      let ?all = "allMessages st @ filterByTimestamp (new_Date env) batch startDate endDate"
      let ?s1 = "st\<lparr>limiter := rl1,
                     fetches := fetches st @ [(before (paginationState st), Inr batch)],
                     allMessages := ?all,
                     paginationState := (paginationState st)
                       \<lparr>totalFetched := totalFetched (paginationState st) + length batch,
                        before := Some (id_msg (last batch)),
                        lastMessageId := Some (id_msg (last batch))\<rparr>,
                     world := (if hasMore (paginationState st)
                               then delay PAGINATION_DELAY_MS w1 else w1)\<rparr>"
      from continue(4) True Suc.prems(1) have rest:
        "scrapeLoop n env 0 startDate endDate ?s1 = Some (thrownU, stU)"
        by simp
      note stepK = scrapeStep_page [OF continue(1,2), of maxMessages startDate endDate]
      show ?thesis
      proof (cases "int (length ?all) \<ge> maxMessages")
        case reached: True
        from scrapeLoop_grows [OF rest] have
          grow: "prefix ?all (allMessages stU)"
            "prefix (fetches st @ [(before (paginationState st), Inr batch)]) (fetches stU)"
          by simp_all
        have "take (nat maxMessages) (allMessages stU) = take (nat maxMessages) ?all"
          using grow(1) reached by (intro take_of_prefix) auto
        with stepK reached assms(1) True grow(2) show ?thesis
          by (auto simp: Let_def)
      next
        case False
        with stepK assms(1) True have
          "scrapeLoop (Suc n) env maxMessages startDate endDate st =
           scrapeLoop n env maxMessages startDate endDate ?s1"
          by (simp add: Let_def)
        moreover from False have "int (length (allMessages ?s1)) < maxMessages"
          by simp
        from Suc.IH [OF rest this] obtain thrownK stK where
          "scrapeLoop n env maxMessages startDate endDate ?s1 = Some (thrownK, stK)"
          "allMessages stK = take (nat maxMessages) (allMessages stU)"
          "prefix (fetches stK) (fetches stU)"
          by blast
        ultimately show ?thesis
          by simp
      qed
    qed
  qed
qed

lemma capped_loop:
  "scrapeLoop 3 sample_env 1 None None (initial_state new_RateLimiter sample_world) =
   Some (None, capped_final)"
  by code_simp

text \<open>
  C3. With \<open>maxMessages = K > 0\<close> the cap counts what the filter kept. In the pass in
  which the kept messages reach \<open>K\<close>, the loop ends: the messages are cut to the first
  \<open>K\<close>, \<open>hasMore\<close> is false, and the state is the one the fetch left, so no further page
  is requested. Against the run without a cap (\<open>maxMessages = 0\<close>), which keeps all that
  the filter kept of its pages, the capped run ends within the same number of passes,
  fetches a prefix of the same pages and keeps the first \<open>K\<close> of the same messages:
  \<open>min K total\<close> of them. A capped run never keeps more than \<open>K\<close>.
\<close>

theorem maxMessages_cap:
  assumes "maxMessages > 0"
  shows "(hasMore (paginationState st) \<and>
          fetchMessageBatch (feed env) (before (paginationState st)) (limiter st) (world st) =
            (Inr batch, rl', w') \<and>
          batch \<noteq> [] \<and>
          int (length (allMessages st @ filterByTimestamp (new_Date env) batch startDate endDate))
            \<ge> maxMessages \<longrightarrow>
          scrapeLoop (Suc n) env maxMessages startDate endDate st =
            Some (None,
              st\<lparr>limiter := rl', world := w',
                 fetches := fetches st @ [(before (paginationState st), Inr batch)],
                 allMessages := take (nat maxMessages)
                   (allMessages st @ filterByTimestamp (new_Date env) batch startDate endDate),
                 paginationState := (paginationState st)
                   \<lparr>totalFetched := totalFetched (paginationState st) + length batch,
                    before := Some (id_msg (last batch)),
                    lastMessageId := Some (id_msg (last batch)),
                    hasMore := False\<rparr>\<rparr>)) \<and>
         (scrapeLoop k env 0 startDate endDate (initial_state rl w) = Some (thrownU, stU) \<longrightarrow>
          allMessages stU = kept_of (new_Date env) startDate endDate (fetches stU) \<and>
          (\<exists>thrownK stK.
             scrapeLoop k env maxMessages startDate endDate (initial_state rl w) = Some (thrownK, stK) \<and>
             allMessages stK = take (nat maxMessages) (allMessages stU) \<and>
             length (allMessages stK) = min (nat maxMessages) (length (allMessages stU)) \<and>
             prefix (fetches stK) (fetches stU))) \<and>
         (scrapeLoop k env maxMessages startDate endDate (initial_state rl w) = Some (thrownK', stK') \<longrightarrow>
          length (allMessages stK') \<le> nat maxMessages \<and>
          allMessages stK' =
            take (nat maxMessages) (kept_of (new_Date env) startDate endDate (fetches stK')))"
proof (intro conjI impI)
  assume step: "hasMore (paginationState st) \<and>
      fetchMessageBatch (feed env) (before (paginationState st)) (limiter st) (world st) =
        (Inr batch, rl', w') \<and>
      batch \<noteq> [] \<and>
      int (length (allMessages st @ filterByTimestamp (new_Date env) batch startDate endDate))
        \<ge> maxMessages"
  then have "scrapeStep env maxMessages startDate endDate st =
      Break (st\<lparr>limiter := rl', world := w',
                 fetches := fetches st @ [(before (paginationState st), Inr batch)],
                 allMessages := take (nat maxMessages)
                   (allMessages st @ filterByTimestamp (new_Date env) batch startDate endDate),
                 paginationState := (paginationState st)
                   \<lparr>totalFetched := totalFetched (paginationState st) + length batch,
                    before := Some (id_msg (last batch)),
                    lastMessageId := Some (id_msg (last batch)),
                    hasMore := False\<rparr>\<rparr>)"
    using assms by (simp add: scrapeStep_page Let_def)
  with step show "scrapeLoop (Suc n) env maxMessages startDate endDate st =
      Some (None,
        st\<lparr>limiter := rl', world := w',
           fetches := fetches st @ [(before (paginationState st), Inr batch)],
           allMessages := take (nat maxMessages)
             (allMessages st @ filterByTimestamp (new_Date env) batch startDate endDate),
           paginationState := (paginationState st)
             \<lparr>totalFetched := totalFetched (paginationState st) + length batch,
              before := Some (id_msg (last batch)),
              lastMessageId := Some (id_msg (last batch)),
              hasMore := False\<rparr>\<rparr>)"
    by simp
next
  assume run: "scrapeLoop k env 0 startDate endDate (initial_state rl w) = Some (thrownU, stU)"
  from scrapeLoop_kept [OF run]
  show "allMessages stU = kept_of (new_Date env) startDate endDate (fetches stU)"
    by (simp add: initial_state_def)
  have "int (length (allMessages (initial_state rl w))) < maxMessages"
    using assms by (simp add: initial_state_def)
  from capped_vs_unlimited [OF assms run this]
  show "\<exists>thrownK stK.
      scrapeLoop k env maxMessages startDate endDate (initial_state rl w) = Some (thrownK, stK) \<and>
      allMessages stK = take (nat maxMessages) (allMessages stU) \<and>
      length (allMessages stK) = min (nat maxMessages) (length (allMessages stU)) \<and>
      prefix (fetches stK) (fetches stU)"
    by (auto simp: min.commute)
next
  assume run: "scrapeLoop k env maxMessages startDate endDate (initial_state rl w) = Some (thrownK', stK')"
  have "allMessages stK' =
      (if maxMessages > 0
       then take (nat maxMessages) (kept_of (new_Date env) startDate endDate (fetches stK'))
       else kept_of (new_Date env) startDate endDate (fetches stK'))"
    using scrapeLoop_kept [OF run] assms by (simp add: initial_state_def)
  with assms show kept: "allMessages stK' =
      take (nat maxMessages) (kept_of (new_Date env) startDate endDate (fetches stK'))"
    by simp
  then show "length (allMessages stK') \<le> nat maxMessages"
    by simp
qed

theorem maxMessages_cap_witness:
  "(1::int) > 0 \<and>
   scrapeLoop 3 sample_env 0 None None (initial_state new_RateLimiter sample_world) =
     Some (None, sample_final) \<and>
   scrapeLoop 3 sample_env 1 None None (initial_state new_RateLimiter sample_world) =
     Some (None, capped_final) \<and>
   length (allMessages sample_final) = 3 \<and>
   allMessages capped_final = take (nat 1) (allMessages sample_final) \<and>
   length (allMessages capped_final) = min (nat 1) (length (allMessages sample_final)) \<and>
   prefix (fetches capped_final) (fetches sample_final) \<and>
   length (fetches capped_final) = 1"
proof -
  have cap: "(1::int) > 0"
    by simp
  let ?st = "initial_state new_RateLimiter sample_world :: unit scrape_state"
  have step: "hasMore (paginationState ?st) \<and>
      fetchMessageBatch (feed sample_env) (before (paginationState ?st)) (limiter ?st) (world ?st) =
        (Inr (take 2 sample_channel), new_RateLimiter\<lparr>requestTimes := [0]\<rparr>, sample_world) \<and>
      take 2 sample_channel \<noteq> [] \<and>
      int (length (allMessages ?st @
        filterByTimestamp (new_Date sample_env) (take 2 sample_channel) None None)) \<ge> 1"
    using sample_fetch_first
    by (simp add: initial_state_def sample_env_def filterByTimestamp_def sample_channel_def)
  note fact = maxMessages_cap [OF cap, of ?st sample_env "take 2 sample_channel"
      "new_RateLimiter\<lparr>requestTimes := [0]\<rparr>" sample_world None None 2 3 new_RateLimiter
      sample_world None sample_final None capped_final]
  from fact step have "scrapeLoop (Suc 2) sample_env 1 None None ?st =
      Some (None,
        ?st\<lparr>limiter := new_RateLimiter\<lparr>requestTimes := [0]\<rparr>, world := sample_world,
            fetches := fetches ?st @ [(before (paginationState ?st), Inr (take 2 sample_channel))],
            allMessages := take (nat 1)
              (allMessages ?st @
               filterByTimestamp (new_Date sample_env) (take 2 sample_channel) None None),
            paginationState := (paginationState ?st)
              \<lparr>totalFetched := totalFetched (paginationState ?st) + length (take 2 sample_channel),
               before := Some (id_msg (last (take 2 sample_channel))),
               lastMessageId := Some (id_msg (last (take 2 sample_channel))),
               hasMore := False\<rparr>\<rparr>)"
    by blast
  from fact sample_run obtain thrownK stK where
    capped: "scrapeLoop 3 sample_env 1 None None ?st = Some (thrownK, stK)"
      "allMessages stK = take (nat 1) (allMessages sample_final)"
      "length (allMessages stK) = min (nat 1) (length (allMessages sample_final))"
      "prefix (fetches stK) (fetches sample_final)"
    by blast
  from capped(1) capped_loop have "stK = capped_final"
    by simp
  with capped sample_run capped_loop show ?thesis
    by (simp add: sample_final_def capped_final_def sample_channel_def)
qed

section \<open>The cursor\<close>

lemma pages_of_Nil [simp]: "pages_of [] = []"
  by (simp add: pages_of_def)

lemma pages_of_snoc: "pages_of (fs @ [f]) = pages_of fs @ page_of f"
  by (simp add: pages_of_def)

lemma cursor_chain_snoc:
  "cursor_chain (fs @ [g]) \<longleftrightarrow>
     fs = [] \<or>
     (cursor_chain fs \<and>
      (case snd (last fs) of
         Inl msg \<Rightarrow> False
       | Inr page \<Rightarrow> page \<noteq> [] \<and> fst g = Some (id_msg (last page))))"
  by (induction fs rule: cursor_chain.induct) (auto split: sum.splits)

lemma cursor_after_trans:
  "cursor_after rank a b \<Longrightarrow> cursor_after rank b c \<Longrightarrow> cursor_after rank a c"
  by (auto simp: cursor_after_def split: option.splits)

lemma cursor_after_irrefl: "\<not> cursor_after rank a a"
  by (simp add: cursor_after_def split: option.splits)

lemma sorted_wrt_irrefl_distinct:
  assumes "\<And>x. \<not> R x x" and "sorted_wrt R xs"
  shows "distinct xs"
  using assms(2) by (induction xs) (auto simp: assms(1))

lemma newest_first_last_least:
  fixes rank :: "string \<Rightarrow> nat"
  assumes "sorted_wrt (\<lambda>a b. rank (id_msg b) < rank (id_msg a)) page" and "m \<in> set page"
  shows "rank (id_msg (last page)) \<le> rank (id_msg m)"
  using assms
proof (induction page)
  case Nil
  then show ?case by simp
next
  case (Cons x xs)
  show ?case
  proof (cases "xs = []")
    case True
    with Cons.prems show ?thesis by simp
  next
    case False
    then have in_xs: "last xs \<in> set xs"
      by simp
    show ?thesis
    proof (cases "m = x")
      case True
      with Cons.prems(1) in_xs False show ?thesis
        by (auto simp: less_imp_le)
    next
      case neq: False
      with Cons False show ?thesis
        by auto
    qed
  qed
qed

lemma fetched_page_ok:
  assumes "feed_ok rank fd" and "fetchMessageBatch fd c rl w = (Inr page, rl', w')"
  shows "page_ok rank (query_of c) page"
  using fetchMessageBatch_page_from_feed [OF assms(2)] assms(1)
  unfolding feed_ok_def by blast

lemma walk_log_extended:
  assumes inv: "walk_invariant rank s"
    and page: "page_of (c, r) = [] \<or> (\<exists>batch. r = Inr batch \<and> page_ok rank (query_of c) batch)"
    and c: "c = before (paginationState s)"
  shows "walk_result rank (fetches s @ [(c, r)])"
proof -
  let ?fs = "fetches s"
  have chain: "cursor_chain (?fs @ [(c, r)])"
    using inv c by (auto simp: cursor_chain_snoc walk_invariant_def)
  have cursors: "sorted_wrt (cursor_after rank) (map fst (?fs @ [(c, r)]))"
    using inv c by (auto simp: sorted_wrt_append walk_invariant_def)
  have pages: "sorted_wrt (\<lambda>a b. rank (id_msg b) < rank (id_msg a)) (pages_of (?fs @ [(c, r)]))"
  proof (cases "page_of (c, r) = []")
    case True
    with inv show ?thesis
      by (simp add: pages_of_snoc walk_invariant_def)
  next
    case False
    with page obtain batch where batch: "r = Inr batch" "page_ok rank (query_of c) batch"
      by blast
    have "rank (id_msg b) < rank (id_msg m)"
      if "m \<in> set (pages_of ?fs)" and "b \<in> set batch" for m b
    proof -
      from inv that(1) c obtain x where x: "c = Some x" "rank x \<le> rank (id_msg m)" "x \<noteq> []"
        by (auto simp: walk_invariant_def)
      with batch(2) that(2) have "rank (id_msg b) < rank x"
        by (auto simp: page_ok_def query_of_def list_all_iff)
      with x show ?thesis
        by simp
    qed
    with inv batch show ?thesis
      by (auto simp: pages_of_snoc page_of_def sorted_wrt_append walk_invariant_def page_ok_def)
  qed
  from chain cursors pages show ?thesis
    by (simp add: walk_result_def)
qed

lemma walk_invariant_step:
  assumes inv: "walk_invariant rank s"
    and page: "page_ok rank (query_of (before (paginationState s))) batch"
    and nonempty: "batch \<noteq> []"
    and log: "fetches s1 = fetches s @ [(before (paginationState s), Inr batch)]"
    and cur: "before (paginationState s1) = Some (id_msg (last batch))"
  shows "walk_invariant rank s1"
proof -
  let ?c = "before (paginationState s)"
  let ?new = "id_msg (last batch)"
  from walk_log_extended [OF inv, of ?c "Inr batch"] page log
  have result: "walk_result rank (fetches s1)"
    by auto
  have last_in: "last batch \<in> set batch"
    using nonempty by simp
  have new_ok: "?new \<noteq> []"
    using page last_in by (auto simp: page_ok_def list_all_iff)
  have below: "rank ?new < rank x" if "?c = Some x" for x
  proof -
    from inv that have "x \<noteq> []"
      by (simp add: walk_invariant_def)
    with page that last_in show ?thesis
      by (auto simp: page_ok_def query_of_def list_all_iff)
  qed
  have step: "cursor_after rank ?c (Some ?new)"
    using below by (auto simp: cursor_after_def split: option.splits)
  have older: "cursor_after rank c (Some ?new)" if "c \<in> set (map fst (fetches s))" for c
  proof -
    from inv that have "cursor_after rank c ?c"
      by (auto simp: walk_invariant_def)
    then show ?thesis
      using step by (rule cursor_after_trans)
  qed
  have floor: "rank ?new \<le> rank (id_msg m)" if "m \<in> set (pages_of (fetches s1))" for m
  proof (cases "m \<in> set batch")
    case True
    with page show ?thesis
      by (intro newest_first_last_least) (simp_all add: page_ok_def)
  next
    case False
    with that log have "m \<in> set (pages_of (fetches s))"
      by (simp add: pages_of_snoc page_of_def)
    with inv obtain x where "?c = Some x" "rank x \<le> rank (id_msg m)"
      by (auto simp: walk_invariant_def)
    with below [of x] show ?thesis
      by simp
  qed
  from result step older floor new_ok show ?thesis
    using log cur nonempty by (auto simp: walk_invariant_def walk_result_def)
qed

lemma scrapeLoop_walk:
  assumes "feed_ok rank (feed env)"
    and "scrapeLoop n env maxMessages startDate endDate st = Some (thrown, st')"
    and "walk_invariant rank st"
  shows "walk_result rank (fetches st')"
proof (rule scrapeLoop_rule [where I = "walk_invariant rank"
      and Q = "\<lambda>t s. walk_result rank (fetches s)", OF assms(2,3)])
  fix s s1
  assume s: "walk_invariant rank s"
    and step: "scrapeStep env maxMessages startDate endDate s = Continue s1"
  show "walk_invariant rank s1"
  proof (cases rule: scrapeStep_cases [of env s maxMessages startDate endDate])
    case (continue batch rl1 w1)
    from fetched_page_ok [OF assms(1) continue(1)]
    have page: "page_ok rank (query_of (before (paginationState s))) batch" .
    from continue(4) step have
      "fetches s1 = fetches s @ [(before (paginationState s), Inr batch)]"
      "before (paginationState s1) = Some (id_msg (last batch))"
      by auto
    with s page continue(2) show ?thesis
      by (rule walk_invariant_step)
  qed (use step in simp_all)
next
  fix s msg s1
  assume s: "walk_invariant rank s"
    and step: "scrapeStep env maxMessages startDate endDate s = Thrown msg s1"
  show "walk_result rank (fetches s1)"
  proof (cases rule: scrapeStep_cases [of env s maxMessages startDate endDate])
    case (thrown msg' rl1 w1)
    from walk_log_extended [OF s, of "before (paginationState s)" "Inl msg'"] thrown(2) step
    show ?thesis
      by (simp add: page_of_def)
  qed (use step in simp_all)
next
  fix s s1
  assume s: "walk_invariant rank s"
    and step: "scrapeStep env maxMessages startDate endDate s = Break s1"
  show "walk_result rank (fetches s1)"
  proof (cases rule: scrapeStep_cases [of env s maxMessages startDate endDate])
    case (empty rl1 w1)
    from walk_log_extended [OF s, of "before (paginationState s)" "Inr []"] empty(2) step
    show ?thesis
      by (simp add: page_of_def)
  next
    case (capped batch rl1 w1)
    from fetched_page_ok [OF assms(1) capped(1)]
    have "page_ok rank (query_of (before (paginationState s))) batch" .
    with walk_log_extended [OF s, of "before (paginationState s)" "Inr batch"] capped(5) step
    show ?thesis
      by simp
  qed (use step in simp_all)
next
  fix s
  assume "walk_invariant rank s"
  then show "walk_result rank (fetches s)"
    by (simp add: walk_invariant_def walk_result_def)
qed

lemma walk_invariant_initial: "walk_invariant rank (initial_state rl w)"
  by (simp add: walk_invariant_def initial_state_def)

lemma scrapeChannel_fetches:
  assumes "scrapeChannel bound env serverId' channelId' maxMessages timestampStart timestampEnd rl w =
             Some (r, st')"
  shows "fetches st' = [] \<or>
         (\<exists>w2 thrown st.
            scrapeLoop bound env maxMessages (parse_bound (new_Date env) timestampStart)
              (parse_bound (new_Date env) timestampEnd) (initial_state rl w2) = Some (thrown, st) \<and>
            fetches st' = fetches st)"
proof -
  obtain startTime w0 where t0: "Date_now w = (startTime, w0)"
    by (cases "Date_now w")
  with assms obtain thrown errs st where
    tried: "scrape_try bound env maxMessages timestampStart timestampEnd rl w0 = Some (thrown, errs, st)"
    by (auto simp: scrapeChannel_def split: option.splits)
  obtain logged w3 where t1: "Date_now (world st) = (logged, w3)"
    by (cases "Date_now (world st)")
  obtain finished w4 where t2: "Date_now w3 = (finished, w4)"
    by (cases "Date_now w3")
  from assms t0 tried t1 t2 have same: "fetches st' = fetches st"
    by (auto simp: scrapeChannel_def)
  from tried have "fetches st = [] \<or>
      (\<exists>w2. scrapeLoop bound env maxMessages (parse_bound (new_Date env) timestampStart)
              (parse_bound (new_Date env) timestampEnd) (initial_state rl w2) = Some (thrown, st))"
    by (auto simp: scrape_try_def initial_state_def Let_def
        split: prod.splits option.splits if_splits)
  with same show ?thesis
    by auto
qed

lemma sample_feed_ok: "feed_ok snowflake sample_feed"
proof -
  have ranked: "sorted_wrt (\<lambda>a b. snowflake (id_msg b) < snowflake (id_msg a)) sample_channel"
    by (simp add: sample_channel_def snowflake_def)
  have ids: "\<forall>m \<in> set sample_channel. id_msg m \<noteq> []"
    by (simp add: sample_channel_def)
  show ?thesis
    unfolding feed_ok_def page_ok_def sample_feed_def
    using ranked ids
    by (auto simp: list_all_iff sorted_wrt_take sorted_wrt_filter
        dest!: in_set_takeD split: option.splits)
qed

text \<open>
  C1. On a feed that answers every request with a page newest first, of ids that are
  not empty and lie strictly before the cursor of the request: a page that is not empty
  sets the cursor to the id of its last message; in the log of a run every fetch but the
  last returned such a page and the next fetch was given that id; the cursors of the
  fetches go strictly further back, so none repeats; and the messages of all the pages
  fetched go strictly further back, so none is fetched twice.
\<close>

theorem cursor_strictly_decreases:
  assumes "feed_ok rank (feed env)"
    and "scrapeChannel bound env serverId' channelId' maxMessages timestampStart timestampEnd rl w =
           Some (r, st')"
  shows "(fetchMessageBatch (feed env) (before (paginationState st)) (limiter st) (world st) =
            (Inr batch, rl', w') \<and> batch \<noteq> [] \<longrightarrow>
          before (paginationState (state_of (scrapeStep env maxMessages startDate endDate st))) =
            Some (id_msg (last batch))) \<and>
         cursor_chain (fetches st') \<and>
         sorted_wrt (cursor_after rank) (map fst (fetches st')) \<and>
         distinct (map fst (fetches st')) \<and>
         sorted_wrt (\<lambda>a b. rank (id_msg b) < rank (id_msg a)) (pages_of (fetches st')) \<and>
         distinct (map id_msg (pages_of (fetches st')))"
proof -
  have step: "fetchMessageBatch (feed env) (before (paginationState st)) (limiter st) (world st) =
            (Inr batch, rl', w') \<and> batch \<noteq> [] \<longrightarrow>
          before (paginationState (state_of (scrapeStep env maxMessages startDate endDate st))) =
            Some (id_msg (last batch))"
    by (auto simp: scrapeStep_page Let_def)
  have result: "walk_result rank (fetches st')"
    using scrapeChannel_fetches [OF assms(2)]
  proof
    assume "fetches st' = []"
    then show ?thesis
      by (simp add: walk_result_def)
  next
    assume "\<exists>w2 thrown st.
        scrapeLoop bound env maxMessages (parse_bound (new_Date env) timestampStart)
          (parse_bound (new_Date env) timestampEnd) (initial_state rl w2) = Some (thrown, st) \<and>
        fetches st' = fetches st"
    then obtain w2 thrown s where
      run: "scrapeLoop bound env maxMessages (parse_bound (new_Date env) timestampStart)
          (parse_bound (new_Date env) timestampEnd) (initial_state rl w2) = Some (thrown, s)"
      and same: "fetches st' = fetches s"
      by blast
    from scrapeLoop_walk [OF assms(1) run walk_invariant_initial] same show ?thesis
      by simp
  qed
  then have cursors: "sorted_wrt (cursor_after rank) (map fst (fetches st'))"
    and pages: "sorted_wrt (\<lambda>a b. rank (id_msg b) < rank (id_msg a)) (pages_of (fetches st'))"
    and chain: "cursor_chain (fetches st')"
    by (simp_all add: walk_result_def)
  have no_repeat: "distinct (map fst (fetches st'))"
    using cursors by (rule sorted_wrt_irrefl_distinct [rotated]) (rule cursor_after_irrefl)
  have "sorted_wrt (\<lambda>a b. rank b < rank a) (map id_msg (pages_of (fetches st')))"
    using pages by (simp add: sorted_wrt_map)
  then have no_refetch: "distinct (map id_msg (pages_of (fetches st')))"
    by (rule sorted_wrt_irrefl_distinct [rotated]) simp
  from step chain cursors no_repeat pages no_refetch show ?thesis
    by blast
qed

lemma sample_scrape:
  "scrapeChannel 5 sample_env ''srv'' ''chan'' 0 None None new_RateLimiter sample_world =
   Some (sample_result, sample_final)"
  by code_simp

theorem cursor_strictly_decreases_witness:
  "feed_ok snowflake (feed sample_env) \<and>
   scrapeChannel 5 sample_env ''srv'' ''chan'' 0 None None new_RateLimiter sample_world =
     Some (sample_result, sample_final) \<and>
   map fst (fetches sample_final) = [None, Some ''20'', Some ''10''] \<and>
   cursor_chain (fetches sample_final) \<and>
   sorted_wrt (cursor_after snowflake) (map fst (fetches sample_final)) \<and>
   distinct (map fst (fetches sample_final)) \<and>
   map id_msg (pages_of (fetches sample_final)) = [''30'', ''20'', ''10''] \<and>
   distinct (map id_msg (pages_of (fetches sample_final)))"
proof -
  have feed: "feed_ok snowflake (feed sample_env)"
    using sample_feed_ok by (simp add: sample_env_def)
  from cursor_strictly_decreases [OF feed sample_scrape]
  have "cursor_chain (fetches sample_final)"
    and "sorted_wrt (cursor_after snowflake) (map fst (fetches sample_final))"
    and "distinct (map fst (fetches sample_final))"
    and "distinct (map id_msg (pages_of (fetches sample_final)))"
    by blast+
  moreover have "map fst (fetches sample_final) = [None, Some ''20'', Some ''10'']"
    by (simp add: sample_final_def)
  moreover have "map id_msg (pages_of (fetches sample_final)) = [''30'', ''20'', ''10'']"
    by (simp add: sample_final_def pages_of_def page_of_def sample_channel_def)
  ultimately show ?thesis
    using feed sample_scrape by simp
qed

section \<open>Properties of the retry wrapper\<close>

lemma retryLoop_attempt:
  assumes "attempt \<le> maxRetries'"
    and "waitForRateLimit rl w = (rl1, w1)"
    and "fn w1 = (r, w2)"
  shows "retryLoop maxRetries' retryDelay' fn attempt lastError rl w =
           (case r of
              Inr v \<Rightarrow> (Inr v, rl1, w2)
            | Inl msg \<Rightarrow>
                if \<not> str_includes msg ''429'' then (Inl msg, rl1, w2)
                else if attempt < maxRetries' then
                  retryLoop maxRetries' retryDelay' fn (attempt + 1) (Some msg) rl1
                    (delay (retryDelay' * 2 ^ (attempt - 1)) w2)
                else (Inl msg, rl1, w2))"
proof -
  have step: "retryLoop maxRetries' retryDelay' fn attempt lastError rl w =
      (case r of
         Inr v \<Rightarrow> (Inr v, rl1, w2)
       | Inl msg \<Rightarrow>
           if str_includes msg ''429'' then
             retryLoop maxRetries' retryDelay' fn (attempt + 1) (Some msg) rl1
               (if attempt < maxRetries' then delay (retryDelay' * 2 ^ (attempt - 1)) w2 else w2)
           else (Inl msg, rl1, w2))"
    using assms by (subst retryLoop.simps) (simp split: sum.splits)
  have spent: "retryLoop maxRetries' retryDelay' fn (attempt + 1) (Some msg) rl1 w2 =
      (Inl msg, rl1, w2)" if "\<not> attempt < maxRetries'" for msg
    using that by (subst retryLoop.simps) simp
  show ?thesis
    unfolding step using spent by (simp split: sum.splits)
qed

lemma Date_now_keeps:
  "Date_now w = (t, w') \<Longrightarrow> slept w' = slept w \<and> remote w' = remote w \<and> clock w' = t \<and> clock w \<le> t"
  by (auto simp: Date_now_def split: list.splits)

lemma delay_keeps [simp]:
  "slept (delay ms w) = slept w @ [ms]" "remote (delay ms w) = remote w"
  "ticks (delay ms w) = ticks w"
  by (simp_all add: delay_def split: list.splits)

lemma waitForRateLimit_unfold:
  assumes "Date_now w = (now, wa)" and "Date_now (after_wait now rl wa) = (recorded, wc)"
  shows "waitForRateLimit rl w = (rl\<lparr>requestTimes := pruned now rl @ [recorded]\<rparr>, wc)"
  using assms unfolding waitForRateLimit_def Let_def pruned_def after_wait_def
  by simp

lemma remote_after_wait [simp]: "remote (after_wait now rl wa) = remote wa"
  by (simp add: after_wait_def split: list.splits)

lemma waitForRateLimit_fields:
  assumes "waitForRateLimit rl w = (rl1, w1)"
  shows "requestsPerSecond rl1 = requestsPerSecond rl \<and> maxRetries rl1 = maxRetries rl \<and>
         retryDelay rl1 = retryDelay rl \<and> remote w1 = remote w \<and>
         length (requestTimes rl1) \<le> length (requestTimes rl) + 1"
proof -
  obtain now wa where t1: "Date_now w = (now, wa)"
    by (cases "Date_now w")
  obtain recorded wc where t2: "Date_now (after_wait now rl wa) = (recorded, wc)"
    by (cases "Date_now (after_wait now rl wa)")
  from waitForRateLimit_unfold [OF t1 t2] assms
  have rl1: "rl1 = rl\<lparr>requestTimes := pruned now rl @ [recorded]\<rparr>" and w1: "w1 = wc"
    by simp_all
  from Date_now_keeps [OF t1] Date_now_keeps [OF t2] w1 have "remote w1 = remote w"
    by simp
  moreover have "length (pruned now rl @ [recorded]) \<le> length (requestTimes rl) + 1"
    by (simp add: pruned_def)
  ultimately show ?thesis
    using rl1 by simp
qed

lemma waitForRateLimit_no_wait:
  assumes "waitForRateLimit rl w = (rl1, w1)"
    and "length (requestTimes rl) < requestsPerSecond rl"
  shows "slept w1 = slept w"
proof -
  obtain now wa where t1: "Date_now w = (now, wa)"
    by (cases "Date_now w")
  have "length (pruned now rl) \<le> length (requestTimes rl)"
    by (simp add: pruned_def)
  with assms(2) have idle: "after_wait now rl wa = wa"
    by (simp add: after_wait_def)
  obtain recorded wc where t2: "Date_now (after_wait now rl wa) = (recorded, wc)"
    by (cases "Date_now (after_wait now rl wa)")
  from waitForRateLimit_unfold [OF t1 t2] assms(1) have "w1 = wc"
    by simp
  with Date_now_keeps [OF t1] Date_now_keeps [OF t2] idle show ?thesis
    by simp
qed

lemma scripted_attempt:
  assumes "remote w = r # rs" and "attempt \<le> m"
    and "length (requestTimes rl) < requestsPerSecond rl"
  obtains rl1 w2 where
    "retryLoop m d scripted attempt lastError rl w =
       (case r of
          Inr v \<Rightarrow> (Inr v, rl1, w2)
        | Inl msg \<Rightarrow>
            if \<not> str_includes msg ''429'' then (Inl msg, rl1, w2)
            else if attempt < m then
              retryLoop m d scripted (attempt + 1) (Some msg) rl1 (delay (d * 2 ^ (attempt - 1)) w2)
            else (Inl msg, rl1, w2))"
    "slept w2 = slept w" "remote w2 = rs"
    "requestsPerSecond rl1 = requestsPerSecond rl"
    "length (requestTimes rl1) \<le> length (requestTimes rl) + 1"
proof -
  obtain rl1 w1 where adm: "waitForRateLimit rl w = (rl1, w1)"
    by (cases "waitForRateLimit rl w")
  note fields = waitForRateLimit_fields [OF adm]
  with assms(1) have call: "scripted w1 = (r, w1\<lparr>remote := rs\<rparr>)"
    by (simp add: scripted_def)
  show thesis
  proof (rule that [of rl1 "w1\<lparr>remote := rs\<rparr>"])
    show "retryLoop m d scripted attempt lastError rl w =
       (case r of
          Inr v \<Rightarrow> (Inr v, rl1, w1\<lparr>remote := rs\<rparr>)
        | Inl msg \<Rightarrow>
            if \<not> str_includes msg ''429'' then (Inl msg, rl1, w1\<lparr>remote := rs\<rparr>)
            else if attempt < m then
              retryLoop m d scripted (attempt + 1) (Some msg) rl1
                (delay (d * 2 ^ (attempt - 1)) (w1\<lparr>remote := rs\<rparr>))
            else (Inl msg, rl1, w1\<lparr>remote := rs\<rparr>))"
      using assms(2) adm call by (rule retryLoop_attempt)
    show "slept (w1\<lparr>remote := rs\<rparr>) = slept w"
      using waitForRateLimit_no_wait [OF adm assms(3)] by simp
  qed (use fields in simp_all)
qed

text \<open>
  The outcome \<open>r\<close> ends the attempts at attempt \<open>attempt\<close> of \<open>m\<close>: a value, an error that
  is no rate-limit signal, or any error at the last attempt.
\<close>

lemma scripted_run:
  assumes "remote w = map Inl ms @ r # rest"
    and "\<forall>x \<in> set ms. str_includes x ''429''"
    and "1 \<le> attempt" and "attempt + length ms \<le> m"
    and "case r of Inr v \<Rightarrow> True
         | Inl msg \<Rightarrow> \<not> str_includes msg ''429'' \<or> attempt + length ms = m"
    and "length (requestTimes rl) + length ms < requestsPerSecond rl"
  shows "\<exists>rl' w'. retryLoop m d scripted attempt lastError rl w = (r, rl', w') \<and>
           remote w' = rest \<and>
           slept w' = slept w @ map (\<lambda>i. d * 2 ^ (attempt - 1 + i)) [0..<length ms]"
  using assms
proof (induction ms arbitrary: attempt lastError rl w)
  case Nil
  from Nil.prems(1) have script: "remote w = r # rest"
    by simp
  from Nil.prems(4) have le: "attempt \<le> m"
    by simp
  from Nil.prems(6) have short: "length (requestTimes rl) < requestsPerSecond rl"
    by simp
  show ?case
  proof (rule scripted_attempt [OF script le short, of d lastError])
    fix rl1 w2
    assume step: "retryLoop m d scripted attempt lastError rl w =
       (case r of
          Inr v \<Rightarrow> (Inr v, rl1, w2)
        | Inl msg \<Rightarrow>
            if \<not> str_includes msg ''429'' then (Inl msg, rl1, w2)
            else if attempt < m then
              retryLoop m d scripted (attempt + 1) (Some msg) rl1 (delay (d * 2 ^ (attempt - 1)) w2)
            else (Inl msg, rl1, w2))"
      and after: "slept w2 = slept w" "remote w2 = rest"
    from Nil.prems(5) have "retryLoop m d scripted attempt lastError rl w = (r, rl1, w2)"
      unfolding step by (auto split: sum.splits)
    with after show ?thesis
      by simp
  qed
next
  case (Cons x xs)
  from Cons.prems(1) have script: "remote w = Inl x # (map Inl xs @ r # rest)"
    by simp
  from Cons.prems(4) have le: "attempt \<le> m" and more: "attempt < m"
    by simp_all
  from Cons.prems(6) have short: "length (requestTimes rl) < requestsPerSecond rl"
    by simp
  from Cons.prems(2) have signal: "str_includes x ''429''"
    by simp
  show ?case
  proof (rule scripted_attempt [OF script le short, of d lastError])
    fix rl1 w2
    assume step: "retryLoop m d scripted attempt lastError rl w =
         (case (Inl x :: string + 'a) of
            Inr v \<Rightarrow> (Inr v, rl1, w2)
          | Inl msg \<Rightarrow>
              if \<not> str_includes msg ''429'' then (Inl msg, rl1, w2)
              else if attempt < m then
                retryLoop m d scripted (attempt + 1) (Some msg) rl1 (delay (d * 2 ^ (attempt - 1)) w2)
              else (Inl msg, rl1, w2))"
      and after: "slept w2 = slept w" "remote w2 = map Inl xs @ r # rest"
        "requestsPerSecond rl1 = requestsPerSecond rl"
        "length (requestTimes rl1) \<le> length (requestTimes rl) + 1"
    let ?w = "delay (d * 2 ^ (attempt - 1)) w2"
    have next_attempt: "retryLoop m d scripted attempt lastError rl w =
        retryLoop m d scripted (attempt + 1) (Some x) rl1 ?w"
      unfolding step using signal more by simp
    have "\<exists>rl' w'. retryLoop m d scripted (attempt + 1) (Some x) rl1 ?w = (r, rl', w') \<and>
        remote w' = rest \<and>
        slept w' = slept ?w @ map (\<lambda>i. d * 2 ^ (attempt + 1 - 1 + i)) [0..<length xs]"
    proof (rule Cons.IH)
      show "remote ?w = map Inl xs @ r # rest"
        using after by simp
      show "\<forall>x \<in> set xs. str_includes x ''429''"
        using Cons.prems(2) by simp
      show "1 \<le> attempt + 1"
        by simp
      show "attempt + 1 + length xs \<le> m"
        using Cons.prems(4) by simp
      show "case r of Inr v \<Rightarrow> True
            | Inl msg \<Rightarrow> \<not> str_includes msg ''429'' \<or> attempt + 1 + length xs = m"
        using Cons.prems(5) by (simp split: sum.splits)
      show "length (requestTimes rl1) + length xs < requestsPerSecond rl1"
        using Cons.prems(6) after by simp
    qed
    then obtain rl' w' where run: "retryLoop m d scripted (attempt + 1) (Some x) rl1 ?w = (r, rl', w')"
      "remote w' = rest"
      "slept w' = slept ?w @ map (\<lambda>i. d * 2 ^ (attempt + i)) [0..<length xs]"
      by auto
    have "map (\<lambda>i. d * 2 ^ (attempt - 1 + i)) [0..<length (x # xs)] =
        d * 2 ^ (attempt - 1) # map (\<lambda>i. d * 2 ^ (attempt + i)) [0..<length xs]"
      using Cons.prems(3) by (simp add: upt_rec [of 0] map_Suc_upt [symmetric] del: upt_Suc)
    with run after next_attempt show ?thesis
      by simp
  qed
qed

text \<open>
  C5. In every attempt \<open>executeWithRetry\<close> first waits for admission and then runs the
  operation, in the world the admission left. A value is returned at once. An error that
  is no rate-limit signal (its text does not hold \<open>429\<close>) is thrown at once, with no
  delay and no further attempt. A rate-limit signal with attempts left is followed by a
  delay of \<open>retryDelay * 2 ^ (attempt - 1)\<close> and the next attempt; at the last attempt it is
  thrown, with no delay. So for an operation that fails with rate-limit signals and then
  gives the outcome \<open>q\<close> (a value, another error, or the error of the last attempt), on a
  limiter whose window leaves room: the outcome of \<open>executeWithRetry\<close> is \<open>q\<close>, the
  operation ran once per failure and once more, and the delays asked for are
  \<open>retryDelay\<close>, twice that, and so on, one per failure.
\<close>

theorem executeWithRetry_policy:
  "(attempt \<le> maxRetries' \<and> waitForRateLimit rl w = (rl1, w1) \<and> fn w1 = (r, w2) \<longrightarrow>
      retryLoop maxRetries' retryDelay' fn attempt lastError rl w =
        (case r of
           Inr v \<Rightarrow> (Inr v, rl1, w2)
         | Inl msg \<Rightarrow>
             if \<not> str_includes msg ''429'' then (Inl msg, rl1, w2)
             else if attempt < maxRetries' then
               retryLoop maxRetries' retryDelay' fn (attempt + 1) (Some msg) rl1
                 (delay (retryDelay' * 2 ^ (attempt - 1)) w2)
             else (Inl msg, rl1, w2))) \<and>
   executeWithRetry fn rl w = retryLoop (maxRetries rl) (retryDelay rl) fn 1 None rl w \<and>
   (remote ws = map Inl ms @ q # rest \<and> (\<forall>x \<in> set ms. str_includes x ''429'') \<and>
    length ms < maxRetries rl \<and>
    (case q of Inr v \<Rightarrow> True
     | Inl msg \<Rightarrow> \<not> str_includes msg ''429'' \<or> Suc (length ms) = maxRetries rl) \<and>
    length (requestTimes rl) + length ms < requestsPerSecond rl \<longrightarrow>
    (\<exists>rl' ws'. executeWithRetry scripted rl ws = (q, rl', ws') \<and> remote ws' = rest \<and>
       slept ws' = slept ws @ map (\<lambda>i. retryDelay rl * 2 ^ i) [0..<length ms]))"
proof (intro conjI impI)
  assume "attempt \<le> maxRetries' \<and> waitForRateLimit rl w = (rl1, w1) \<and> fn w1 = (r, w2)"
  then show "retryLoop maxRetries' retryDelay' fn attempt lastError rl w =
        (case r of
           Inr v \<Rightarrow> (Inr v, rl1, w2)
         | Inl msg \<Rightarrow>
             if \<not> str_includes msg ''429'' then (Inl msg, rl1, w2)
             else if attempt < maxRetries' then
               retryLoop maxRetries' retryDelay' fn (attempt + 1) (Some msg) rl1
                 (delay (retryDelay' * 2 ^ (attempt - 1)) w2)
             else (Inl msg, rl1, w2))"
    by (elim conjE) (rule retryLoop_attempt)
next
  show "executeWithRetry fn rl w = retryLoop (maxRetries rl) (retryDelay rl) fn 1 None rl w"
    by (simp add: executeWithRetry_def)
next
  assume script: "remote ws = map Inl ms @ q # rest \<and> (\<forall>x \<in> set ms. str_includes x ''429'') \<and>
    length ms < maxRetries rl \<and>
    (case q of Inr v \<Rightarrow> True
     | Inl msg \<Rightarrow> \<not> str_includes msg ''429'' \<or> Suc (length ms) = maxRetries rl) \<and>
    length (requestTimes rl) + length ms < requestsPerSecond rl"
  have "\<exists>rl' ws'. retryLoop (maxRetries rl) (retryDelay rl) scripted 1 None rl ws = (q, rl', ws') \<and>
      remote ws' = rest \<and>
      slept ws' = slept ws @ map (\<lambda>i. retryDelay rl * 2 ^ (1 - 1 + i)) [0..<length ms]"
  proof (rule scripted_run)
    show "remote ws = map Inl ms @ q # rest"
      using script by simp
    show "\<forall>x \<in> set ms. str_includes x ''429''"
      using script by simp
    show "1 + length ms \<le> maxRetries rl"
      using script by simp
    show "case q of Inr v \<Rightarrow> True
          | Inl msg \<Rightarrow> \<not> str_includes msg ''429'' \<or> 1 + length ms = maxRetries rl"
      using script by (simp split: sum.splits)
    show "length (requestTimes rl) + length ms < requestsPerSecond rl"
      using script by simp
  qed simp
  then show "\<exists>rl' ws'. executeWithRetry scripted rl ws = (q, rl', ws') \<and> remote ws' = rest \<and>
       slept ws' = slept ws @ map (\<lambda>i. retryDelay rl * 2 ^ i) [0..<length ms]"
    by (simp add: executeWithRetry_def)
qed

theorem executeWithRetry_policy_witness:
  "fst (executeWithRetry scripted new_RateLimiter throttled_world) = Inl ''still 429'' \<and>
   remote (snd (snd (executeWithRetry scripted new_RateLimiter throttled_world))) = [Inr 7] \<and>
   slept (snd (snd (executeWithRetry scripted new_RateLimiter throttled_world))) = [1000, 2000] \<and>
   retryLoop 3 1000 scripted 3 None new_RateLimiter (throttled_world\<lparr>remote := [Inl ''still 429'', Inr 7]\<rparr>) =
     (Inl ''still 429'', new_RateLimiter\<lparr>requestTimes := [0]\<rparr>, throttled_world\<lparr>remote := [Inr 7]\<rparr>)"
proof -
  let ?w = "throttled_world\<lparr>remote := [Inl ''still 429'', Inr (7::nat)]\<rparr>"
  have script: "remote throttled_world =
      map Inl [''HTTP 429'', ''429 Too Many Requests''] @ Inl ''still 429'' # [Inr 7] \<and>
    (\<forall>x \<in> set [''HTTP 429'', ''429 Too Many Requests'']. str_includes x ''429'') \<and>
    length [''HTTP 429'', ''429 Too Many Requests''] < maxRetries new_RateLimiter \<and>
    (case (Inl ''still 429'' :: string + nat) of Inr v \<Rightarrow> True
     | Inl msg \<Rightarrow> \<not> str_includes msg ''429'' \<or>
         Suc (length [''HTTP 429'', ''429 Too Many Requests'']) = maxRetries new_RateLimiter) \<and>
    length (requestTimes new_RateLimiter) + length [''HTTP 429'', ''429 Too Many Requests'']
      < requestsPerSecond new_RateLimiter"
    by (simp add: throttled_world_def new_RateLimiter_def RATE_LIMIT_MAX_RETRIES_def
        RATE_LIMIT_REQUESTS_PER_SECOND_def)
  have admitted: "(3::nat) \<le> 3 \<and>
      waitForRateLimit new_RateLimiter ?w = (new_RateLimiter\<lparr>requestTimes := [0]\<rparr>, ?w) \<and>
      scripted ?w = (Inl ''still 429'', throttled_world\<lparr>remote := [Inr 7]\<rparr>)"
    by (simp add: waitForRateLimit_def Date_now_def throttled_world_def new_RateLimiter_def
        scripted_def RATE_LIMIT_REQUESTS_PER_SECOND_def)
  note fact = executeWithRetry_policy [of 3 3 new_RateLimiter ?w "new_RateLimiter\<lparr>requestTimes := [0]\<rparr>"
      ?w scripted "Inl ''still 429''" "throttled_world\<lparr>remote := [Inr 7]\<rparr>" 1000 None
      throttled_world "[''HTTP 429'', ''429 Too Many Requests'']" "Inl ''still 429''" "[Inr 7]"]
  from fact script obtain rl' ws' where
    run: "executeWithRetry scripted new_RateLimiter throttled_world = (Inl ''still 429'', rl', ws')"
      "remote ws' = [Inr 7]"
      "slept ws' = slept throttled_world @
         map (\<lambda>i. retryDelay new_RateLimiter * 2 ^ i) [0..<length [''HTTP 429'', ''429 Too Many Requests'']]"
    by blast
  from fact admitted have last_attempt:
    "retryLoop 3 1000 scripted 3 None new_RateLimiter ?w =
       (Inl ''still 429'', new_RateLimiter\<lparr>requestTimes := [0]\<rparr>, throttled_world\<lparr>remote := [Inr 7]\<rparr>)"
    by simp
  have base: "retryDelay new_RateLimiter = 1000"
    by (simp add: new_RateLimiter_def RATE_LIMIT_RETRY_DELAY_MS_def)
  show ?thesis
    using run base last_attempt by (simp add: throttled_world_def)
qed

section \<open>A throttled fetch\<close>

text \<open>
  A response whose status is not a success is returned by \<open>fetch\<close>, so the first attempt
  of \<open>executeWithRetry\<close> ends the loop; the status is checked after the wrapper, and the
  error thrown there is thrown to the caller: one request, no delay.
\<close>

lemma fetchMessageBatch_status_not_retried:
  assumes "waitForRateLimit rl w = (rl1, w1)"
    and "fd (query_of c) (remote w1) = (Resolved response, s')"
    and "\<not> ok response"
    and "1 \<le> maxRetries rl"
  shows "fetchMessageBatch fd c rl w =
         (Inl (''API returned status '' @ show_nat (status response)), rl1, w1\<lparr>remote := s'\<rparr>)"
proof -
  from assms(2) have call: "fetch_call fd (query_of c) w1 = (Inr response, w1\<lparr>remote := s'\<rparr>)"
    by (simp add: fetch_call_def)
  from retryLoop_attempt [of 1 "maxRetries rl" rl w rl1 w1 "fetch_call fd (query_of c)"
      "Inr response" "w1\<lparr>remote := s'\<rparr>" "retryDelay rl" None, OF assms(4) assms(1) call]
  have "executeWithRetry (fetch_call fd (query_of c)) rl w = (Inr response, rl1, w1\<lparr>remote := s'\<rparr>)"
    by (simp add: executeWithRetry_def)
  with assms(3) show ?thesis
    by (simp add: fetchMessageBatch_def)
qed

text \<open>
  C6 (where the code departs from the claim). The feed answers 429, 429 and then a page.
  \<open>fetchMessageBatch\<close> does not return the page: it throws \<open>API returned status 429\<close> after
  the first response, with no delay asked for and the two other responses never requested.
\<close>

theorem fetchMessageBatch_throttled_not_retried:
  "fetchMessageBatch scripted_feed None new_RateLimiter throttled_feed_world =
     (Inl ''API returned status 429'',
      new_RateLimiter\<lparr>requestTimes := [0]\<rparr>,
      throttled_feed_world\<lparr>remote := [Resolved \<lparr>status = 429, json = Inr []\<rparr>,
                                        Resolved \<lparr>status = 200, json = Inr sample_channel\<rparr>]\<rparr>) \<and>
   slept throttled_feed_world = [] \<and>
   str_includes ''API returned status 429'' ''429''"
  by code_simp

section \<open>Properties of the admission check\<close>

lemma length_filter_mono:
  assumes "\<And>x. x \<in> set xs \<Longrightarrow> P x \<Longrightarrow> Q x"
  shows "length (filter P xs) \<le> length (filter Q xs)"
  using assms
proof (induction xs)
  case Nil
  then show ?case by simp
next
  case (Cons x xs)
  then have "length (filter P xs) \<le> length (filter Q xs)"
    by simp
  with Cons.prems [of x] show ?case
    by auto
qed

lemma Date_now_drift: "Date_now w = (t, w') \<Longrightarrow> drift w' = drift w"
  by (auto simp: Date_now_def split: list.splits)

lemma clock_delay: "clock w \<le> clock (delay ms w)"
  by (simp add: delay_def split: list.splits)

lemma punctual_delay:
  "punctual w \<Longrightarrow> punctual (delay ms w) \<and> clock w + ms \<le> clock (delay ms w)"
  by (auto simp: punctual_def delay_def split: list.splits)

lemma clock_after_wait: "clock wa \<le> clock (after_wait now rl wa)"
  by (simp add: after_wait_def clock_delay split: list.splits)

lemma punctual_after_wait: "punctual wa \<Longrightarrow> punctual (after_wait now rl wa)"
  by (simp add: after_wait_def punctual_delay split: list.splits)

lemma slept_after_wait:
  assumes "1 \<le> requestsPerSecond rl"
  shows "slept (after_wait now rl wa) =
         (if length (pruned now rl) \<ge> requestsPerSecond rl
          then slept wa @ [hd (pruned now rl) + 1000 - now] else slept wa)"
proof (cases "length (pruned now rl) \<ge> requestsPerSecond rl")
  case False
  then show ?thesis
    by (simp add: after_wait_def)
next
  case True
  with assms obtain oldest rest where window: "pruned now rl = oldest # rest"
    by (cases "pruned now rl") auto
  then have "oldest \<in> set (pruned now rl)"
    by simp
  then have "now - 1000 < oldest"
    by (simp add: pruned_def)
  with True window show ?thesis
    by (simp add: after_wait_def)
qed

lemma wait_is_positive:
  assumes "pruned now rl = oldest # rest"
  shows "oldest + 1000 - now > 0"
proof -
  from assms have "oldest \<in> set (pruned now rl)"
    by simp
  then have "now - 1000 < oldest"
    by (simp add: pruned_def)
  then show ?thesis
    by simp
qed

lemma clock_after_full_wait:
  assumes "length (pruned now rl) \<ge> requestsPerSecond rl" and "pruned now rl = oldest # rest"
    and "punctual wa"
  shows "clock wa + (oldest + 1000 - now) \<le> clock (after_wait now rl wa)"
  using assms wait_is_positive [OF assms(2)] punctual_delay [OF assms(3), of "oldest + 1000 - now"]
  by (simp add: after_wait_def)

lemma window_invariant_step:
  assumes inv: "window_invariant history rl w"
    and cap: "1 \<le> requestsPerSecond rl"
    and adm: "waitForRateLimit rl w = (rl1, w1)"
  shows "window_invariant (history @ [last (requestTimes rl1)]) rl1 w1"
proof -
  obtain now wa where t1: "Date_now w = (now, wa)"
    by (cases "Date_now w")
  obtain recorded wc where t2: "Date_now (after_wait now rl wa) = (recorded, wc)"
    by (cases "Date_now (after_wait now rl wa)")
  from waitForRateLimit_unfold [OF t1 t2] adm
  have rl1: "rl1 = rl\<lparr>requestTimes := pruned now rl @ [recorded]\<rparr>" and w1: "w1 = wc"
    by simp_all
  from Date_now_keeps [OF t1] have now: "clock w \<le> now" "clock wa = now"
    by simp_all
  from Date_now_keeps [OF t2] clock_after_wait [of wa now rl] now
  have recorded: "clock wc = recorded" "clock (after_wait now rl wa) \<le> recorded" "now \<le> recorded"
    by simp_all
  from inv have on_time: "punctual w"
    by (simp add: window_invariant_def)
  with Date_now_drift [OF t1] have on_time_a: "punctual wa"
    by (simp add: punctual_def)
  with Date_now_drift [OF t2] punctual_after_wait [of wa now rl] w1 have on_time': "punctual w1"
    by (simp add: punctual_def)
  from inv have past: "\<forall>x \<in> set history. x \<le> clock w"
    and room: "\<And>t. length (in_window t history) \<le> requestsPerSecond rl"
    by (simp_all add: window_invariant_def list_all_iff)
  from inv obtain c where c: "c + 1000 \<le> clock w" "requestTimes rl = filter (\<lambda>x. c < x) history"
    by (auto simp: window_invariant_def)
  have window: "pruned now rl = filter (\<lambda>x. now - 1000 < x) history"
  proof -
    have "pruned now rl = filter (\<lambda>x. now - 1000 < x \<and> c < x) history"
      by (simp add: pruned_def c(2) conj_commute)
    also have "\<dots> = filter (\<lambda>x. now - 1000 < x) history"
      using c(1) now(1) by (intro filter_cong) auto
    finally show ?thesis .
  qed
  have current: "pruned now rl = in_window now history"
    unfolding window in_window_def using past now(1) by (intro filter_cong) auto
  then have fits: "length (pruned now rl) \<le> requestsPerSecond rl"
    using room [of now] by simp
  have past': "list_all (\<lambda>x. x \<le> clock w1) (history @ [recorded])"
    using past now recorded w1 by (auto simp: list_all_iff)
  have held: "\<exists>c. c + 1000 \<le> clock w1 \<and>
      requestTimes rl1 = filter (\<lambda>x. c < x) (history @ [recorded])"
    using recorded w1 rl1 window by (intro exI [of _ "now - 1000"]) simp
  have fresh: "length (filter (\<lambda>x. recorded - 1000 < x) history) < requestsPerSecond rl"
  proof (cases "length (pruned now rl) \<ge> requestsPerSecond rl")
    case False
    have "length (filter (\<lambda>x. recorded - 1000 < x) history) \<le> length (pruned now rl)"
      unfolding window using recorded(3) by (intro length_filter_mono) simp
    with False show ?thesis
      by simp
  next
    case True
    with cap obtain oldest rest where split: "pruned now rl = oldest # rest"
      by (cases "pruned now rl") auto
    from clock_after_full_wait [OF True split on_time_a] now(2) recorded(2)
    have waited: "oldest + 1000 \<le> recorded"
      by simp
    have "filter (\<lambda>x. recorded - 1000 < x) history =
        filter (\<lambda>x. recorded - 1000 < x) (filter (\<lambda>x. now - 1000 < x) history)"
      using recorded(3) by (simp add: conj_commute) (intro filter_cong, auto)
    also have "\<dots> = filter (\<lambda>x. recorded - 1000 < x) (oldest # rest)"
      using window split by simp
    also have "\<dots> = filter (\<lambda>x. recorded - 1000 < x) rest"
      using waited by simp
    finally have "length (filter (\<lambda>x. recorded - 1000 < x) history) \<le> length rest"
      by simp
    with fits split show ?thesis
      by simp
  qed
  have room': "length (in_window t (history @ [recorded])) \<le> requestsPerSecond rl1" for t
  proof (cases "t - 1000 < recorded \<and> recorded \<le> t")
    case False
    with room [of t] rl1 show ?thesis
      by (auto simp: in_window_def)
  next
    case True
    have "length (in_window t history) \<le> length (filter (\<lambda>x. recorded - 1000 < x) history)"
      unfolding in_window_def using True by (intro length_filter_mono) simp
    with fresh True rl1 show ?thesis
      by (simp add: in_window_def)
  qed
  from rl1 have "last (requestTimes rl1) = recorded"
    by simp
  with on_time' past' held room' show ?thesis
    by (simp add: window_invariant_def)
qed

lemma admissions_invariant:
  assumes "admissions n rl w = (ts, rl', w')"
    and "window_invariant history rl w"
    and "1 \<le> requestsPerSecond rl"
  shows "window_invariant (history @ ts) rl' w' \<and> requestsPerSecond rl' = requestsPerSecond rl"
  using assms
proof (induction n arbitrary: rl w history ts)
  case 0
  then show ?case
    by simp
next
  case (Suc n)
  obtain rl1 w1 where adm: "waitForRateLimit rl w = (rl1, w1)"
    by (cases "waitForRateLimit rl w")
  obtain ts1 rl2 w2 where rest: "admissions n rl1 w1 = (ts1, rl2, w2)"
    by (cases "admissions n rl1 w1")
  from Suc.prems(1) adm rest have out: "ts = last (requestTimes rl1) # ts1" "rl' = rl2" "w' = w2"
    by simp_all
  from waitForRateLimit_fields [OF adm] have cap: "requestsPerSecond rl1 = requestsPerSecond rl"
    by simp
  from window_invariant_step [OF Suc.prems(2,3) adm]
  have "window_invariant (history @ [last (requestTimes rl1)]) rl1 w1" .
  moreover from rest out have "admissions n rl1 w1 = (ts1, rl', w')"
    by simp
  moreover from cap Suc.prems(3) have "1 \<le> requestsPerSecond rl1"
    by simp
  ultimately have "window_invariant ((history @ [last (requestTimes rl1)]) @ ts1) rl' w' \<and>
      requestsPerSecond rl' = requestsPerSecond rl1"
    by (intro Suc.IH)
  with cap out show ?case
    by simp
qed

lemma sample_admissions:
  "admissions 15 new_RateLimiter sample_world =
   ([0, 0, 0, 0, 0, 0, 0, 0, 0, 0, 1000, 1000, 1000, 1000, 1000],
    new_RateLimiter\<lparr>requestTimes := [1000, 1000, 1000, 1000, 1000]\<rparr>,
    sample_world\<lparr>clock := 1000, slept := [1000]\<rparr>)"
  by code_simp

lemma sample_admissions_10:
  "slept (snd (snd (admissions 10 new_RateLimiter sample_world))) = []"
  by code_simp

lemma sample_admissions_11:
  "slept (snd (snd (admissions 11 new_RateLimiter sample_world))) = [1000]"
  by code_simp

lemma early_admissions:
  "admissions 11 new_RateLimiter early_world =
   ([0, 0, 0, 0, 0, 0, 0, 0, 0, 0, 999],
    new_RateLimiter\<lparr>requestTimes := [0, 0, 0, 0, 0, 0, 0, 0, 0, 0, 999]\<rparr>,
    early_world\<lparr>clock := 999, drift := [], slept := [1000]\<rparr>)"
  by code_simp

text \<open>
  C7, as the claim states it, fails. The check asks the timer for exactly the oldest
  timestamp plus 1000 minus now, and when the caller resumes it records the reading of
  the clock without looking at the window again. With ten requests at time 0 and a timer
  that fires one millisecond early by the wall clock, the eleventh request is recorded at
  999: eleven timestamps younger than 1000ms, against a cap of ten.
\<close>

theorem rate_window_overfull_counterexample:
  "requestsPerSecond new_RateLimiter = 10 \<and>
   fst (admissions 11 new_RateLimiter early_world) = [0, 0, 0, 0, 0, 0, 0, 0, 0, 0, 999] \<and>
   slept (snd (snd (admissions 11 new_RateLimiter early_world))) = [1000] \<and>
   length (in_window 999 (fst (admissions 11 new_RateLimiter early_world))) = 11 \<and>
   \<not> (\<forall>t. length (in_window t (fst (admissions 11 new_RateLimiter early_world)))
          \<le> requestsPerSecond new_RateLimiter)"
proof -
  have cap: "requestsPerSecond new_RateLimiter = 10"
    by (simp add: new_RateLimiter_def RATE_LIMIT_REQUESTS_PER_SECOND_def)
  have full: "length (in_window 999 [0, 0, 0, 0, 0, 0, 0, 0, 0, 0, 999]) = 11"
    by (simp add: in_window_def)
  have "\<not> length (in_window 999 [0, 0, 0, 0, 0, 0, 0, 0, 0, 0, 999]) \<le> requestsPerSecond new_RateLimiter"
    unfolding full cap by simp
  then have "\<not> (\<forall>t. length (in_window t [0, 0, 0, 0, 0, 0, 0, 0, 0, 0, 999])
      \<le> requestsPerSecond new_RateLimiter)"
    by blast
  with cap full show ?thesis
    by (simp add: early_admissions)
qed

text \<open>
  C7, amended. The admission check keeps of the recorded timestamps those younger than
  1000ms. When that many are left as the cap allows, it asks for one delay, of exactly
  the oldest of them plus 1000 minus now, and records the new request when the caller
  resumes; otherwise it asks for none. When no timer fires early, the request is recorded
  no sooner than the oldest timestamp plus 1000, and so, from a limiter with nothing
  recorded and whatever time passes between the events, no window of 1000ms ever holds
  more recorded timestamps than the cap.
\<close>

theorem rate_window_bounded:
  assumes "1 \<le> requestsPerSecond rl"
  shows "(waitForRateLimit rl w = (rl1, w1) \<and> Date_now w = (now, wa) \<longrightarrow>
          (\<exists>recorded.
             requestTimes rl1 = filter (\<lambda>time. time > now - 1000) (requestTimes rl) @ [recorded] \<and>
             now \<le> recorded \<and>
             (if length (filter (\<lambda>time. time > now - 1000) (requestTimes rl)) \<ge> requestsPerSecond rl
              then slept w1 =
                     slept w @ [hd (filter (\<lambda>time. time > now - 1000) (requestTimes rl)) + 1000 - now] \<and>
                   0 < hd (filter (\<lambda>time. time > now - 1000) (requestTimes rl)) + 1000 - now \<and>
                   (punctual w \<longrightarrow>
                      hd (filter (\<lambda>time. time > now - 1000) (requestTimes rl)) + 1000 \<le> recorded)
              else slept w1 = slept w))) \<and>
         (requestTimes rl = [] \<and> punctual w \<and> admissions n rl w = (ts, rl', w') \<longrightarrow>
          (\<forall>t. length (in_window t ts) \<le> requestsPerSecond rl))"
proof (intro conjI impI)
  assume call: "waitForRateLimit rl w = (rl1, w1) \<and> Date_now w = (now, wa)"
  then have t1: "Date_now w = (now, wa)" and adm: "waitForRateLimit rl w = (rl1, w1)"
    by simp_all
  obtain recorded wc where t2: "Date_now (after_wait now rl wa) = (recorded, wc)"
    by (cases "Date_now (after_wait now rl wa)")
  from waitForRateLimit_unfold [OF t1 t2] adm
  have rl1: "requestTimes rl1 = pruned now rl @ [recorded]" and w1: "w1 = wc"
    by auto
  from Date_now_keeps [OF t1] have now: "slept wa = slept w" "clock wa = now"
    by simp_all
  from Date_now_keeps [OF t2] have after: "slept wc = slept (after_wait now rl wa)"
    "clock (after_wait now rl wa) \<le> recorded"
    by simp_all
  have asked: "slept w1 =
      (if length (pruned now rl) \<ge> requestsPerSecond rl
       then slept w @ [hd (pruned now rl) + 1000 - now] else slept w)"
    using slept_after_wait [OF assms, of now wa] after(1) now(1) w1 by simp
  have later: "now \<le> recorded"
    using clock_after_wait [of wa now rl] after(2) now(2) by simp
  have waited: "0 < hd (pruned now rl) + 1000 - now \<and>
      (punctual w \<longrightarrow> hd (pruned now rl) + 1000 \<le> recorded)"
    if full: "length (pruned now rl) \<ge> requestsPerSecond rl"
  proof -
    from full assms obtain oldest rest where split: "pruned now rl = oldest # rest"
      by (cases "pruned now rl") auto
    have "oldest + 1000 \<le> recorded" if "punctual w"
    proof -
      from that Date_now_drift [OF t1] have "punctual wa"
        by (simp add: punctual_def)
      from clock_after_full_wait [OF full split this] now(2) after(2) show ?thesis
        by simp
    qed
    with wait_is_positive [OF split] split show ?thesis
      by simp
  qed
  show "\<exists>recorded.
      requestTimes rl1 = filter (\<lambda>time. time > now - 1000) (requestTimes rl) @ [recorded] \<and>
      now \<le> recorded \<and>
      (if length (filter (\<lambda>time. time > now - 1000) (requestTimes rl)) \<ge> requestsPerSecond rl
       then slept w1 =
              slept w @ [hd (filter (\<lambda>time. time > now - 1000) (requestTimes rl)) + 1000 - now] \<and>
            0 < hd (filter (\<lambda>time. time > now - 1000) (requestTimes rl)) + 1000 - now \<and>
            (punctual w \<longrightarrow>
               hd (filter (\<lambda>time. time > now - 1000) (requestTimes rl)) + 1000 \<le> recorded)
       else slept w1 = slept w)"
    using rl1 asked later waited unfolding pruned_def
    by (intro exI [of _ recorded]) simp
next
  assume run: "requestTimes rl = [] \<and> punctual w \<and> admissions n rl w = (ts, rl', w')"
  then have start: "window_invariant [] rl w"
    by (auto simp: window_invariant_def in_window_def intro: exI [of _ "clock w - 1000"])
  from run have "admissions n rl w = (ts, rl', w')"
    by simp
  from admissions_invariant [OF this start assms]
  have "window_invariant ([] @ ts) rl' w' \<and> requestsPerSecond rl' = requestsPerSecond rl" .
  then show "\<forall>t. length (in_window t ts) \<le> requestsPerSecond rl"
    by (auto simp: window_invariant_def)
qed

theorem rate_window_bounded_witness:
  "1 \<le> requestsPerSecond new_RateLimiter \<and>
   punctual sample_world \<and>
   admissions 15 new_RateLimiter sample_world =
     ([0, 0, 0, 0, 0, 0, 0, 0, 0, 0, 1000, 1000, 1000, 1000, 1000],
      new_RateLimiter\<lparr>requestTimes := [1000, 1000, 1000, 1000, 1000]\<rparr>,
      sample_world\<lparr>clock := 1000, slept := [1000]\<rparr>) \<and>
   length (in_window 999 [0, 0, 0, 0, 0, 0, 0, 0, 0, 0, 1000, 1000, 1000, 1000, 1000]) = 10 \<and>
   length (in_window 1000 [0, 0, 0, 0, 0, 0, 0, 0, 0, 0, 1000, 1000, 1000, 1000, 1000])
     \<le> requestsPerSecond new_RateLimiter \<and>
   slept (snd (snd (admissions 10 new_RateLimiter sample_world))) = [] \<and>
   slept (snd (snd (admissions 11 new_RateLimiter sample_world))) = [1000] \<and>
   waitForRateLimit (new_RateLimiter\<lparr>requestTimes := [0, 0, 0, 0, 0, 0, 0, 0, 0, 0]\<rparr>)
     (sample_world\<lparr>clock := 400\<rparr>) =
     (new_RateLimiter\<lparr>requestTimes := [0, 0, 0, 0, 0, 0, 0, 0, 0, 0, 1000]\<rparr>,
      sample_world\<lparr>clock := 1000, slept := [600]\<rparr>) \<and>
   slept (sample_world\<lparr>clock := 1000, slept := [600]\<rparr>) =
     slept (sample_world\<lparr>clock := 400\<rparr>) @ [0 + 1000 - 400]"
proof -
  let ?full = "new_RateLimiter\<lparr>requestTimes := [0, 0, 0, 0, 0, 0, 0, 0, 0, 0]\<rparr>"
  have cap_full: "1 \<le> requestsPerSecond ?full"
    by (simp add: new_RateLimiter_def RATE_LIMIT_REQUESTS_PER_SECOND_def)
  have one: "waitForRateLimit ?full (sample_world\<lparr>clock := 400\<rparr>) =
      (new_RateLimiter\<lparr>requestTimes := [0, 0, 0, 0, 0, 0, 0, 0, 0, 0, 1000]\<rparr>,
       sample_world\<lparr>clock := 1000, slept := [600]\<rparr>)"
    by code_simp
  have read: "Date_now (sample_world\<lparr>clock := 400\<rparr>) = (400, sample_world\<lparr>clock := 400\<rparr>)"
    by (simp add: Date_now_def sample_world_def)
  have window: "filter (\<lambda>time. time > 400 - 1000) (requestTimes ?full) =
      [0, 0, 0, 0, 0, 0, 0, 0, 0, 0]"
    by simp
  from rate_window_bounded [OF cap_full, of "sample_world\<lparr>clock := 400\<rparr>"
      "new_RateLimiter\<lparr>requestTimes := [0, 0, 0, 0, 0, 0, 0, 0, 0, 0, 1000]\<rparr>"
      "sample_world\<lparr>clock := 1000, slept := [600]\<rparr>" 400 "sample_world\<lparr>clock := 400\<rparr>"]
    one read
  have "\<exists>recorded.
      requestTimes (new_RateLimiter\<lparr>requestTimes := [0, 0, 0, 0, 0, 0, 0, 0, 0, 0, 1000]\<rparr>) =
        filter (\<lambda>time. time > 400 - 1000) (requestTimes ?full) @ [recorded] \<and>
      400 \<le> recorded \<and>
      (if length (filter (\<lambda>time. time > 400 - 1000) (requestTimes ?full)) \<ge> requestsPerSecond ?full
       then slept (sample_world\<lparr>clock := 1000, slept := [600]\<rparr>) =
              slept (sample_world\<lparr>clock := 400\<rparr>) @
                [hd (filter (\<lambda>time. time > 400 - 1000) (requestTimes ?full)) + 1000 - 400] \<and>
            0 < hd (filter (\<lambda>time. time > 400 - 1000) (requestTimes ?full)) + 1000 - 400 \<and>
            (punctual (sample_world\<lparr>clock := 400\<rparr>) \<longrightarrow>
               hd (filter (\<lambda>time. time > 400 - 1000) (requestTimes ?full)) + 1000 \<le> recorded)
       else slept (sample_world\<lparr>clock := 1000, slept := [600]\<rparr>) =
              slept (sample_world\<lparr>clock := 400\<rparr>))"
    by blast
  then have asked: "slept (sample_world\<lparr>clock := 1000, slept := [600]\<rparr>) =
      slept (sample_world\<lparr>clock := 400\<rparr>) @ [0 + 1000 - 400]"
    unfolding window
    by (auto simp: new_RateLimiter_def RATE_LIMIT_REQUESTS_PER_SECOND_def split: if_splits)
  have cap: "1 \<le> requestsPerSecond new_RateLimiter"
    by (simp add: new_RateLimiter_def RATE_LIMIT_REQUESTS_PER_SECOND_def)
  have fresh: "requestTimes new_RateLimiter = []"
    by (simp add: new_RateLimiter_def)
  have on_time: "punctual sample_world"
    by (simp add: punctual_def sample_world_def)
  from rate_window_bounded [OF cap, of sample_world _ _ _ _ 15
      "[0, 0, 0, 0, 0, 0, 0, 0, 0, 0, 1000, 1000, 1000, 1000, 1000]"
      "new_RateLimiter\<lparr>requestTimes := [1000, 1000, 1000, 1000, 1000]\<rparr>"
      "sample_world\<lparr>clock := 1000, slept := [1000]\<rparr>"]
    fresh on_time sample_admissions
  have "length (in_window 1000 [0, 0, 0, 0, 0, 0, 0, 0, 0, 0, 1000, 1000, 1000, 1000, 1000])
      \<le> requestsPerSecond new_RateLimiter"
    by blast
  moreover have
    "length (in_window 999 [0, 0, 0, 0, 0, 0, 0, 0, 0, 0, 1000, 1000, 1000, 1000, 1000]) = 10"
    by (simp add: in_window_def)
  ultimately show ?thesis
    using cap on_time sample_admissions sample_admissions_10 sample_admissions_11 one asked
    by (simp only: simp_thms)
qed

end
